theory Spec2Isabelle
  imports Complex_Main
begin

section \<open>Python floats\<close>

text \<open>
  A Python \<open>float\<close> is an IEEE 754 binary64 number. A finite one is carried by the
  rational it denotes; the two infinities and NaN are values of their own. The sign of
  zero is not represented: \<open>==\<close> and \<open><\<close> cannot see it, and \<open>script.py\<close> neither
  divides by a rating nor inspects a sign.

  Every arithmetic operation of binary64 returns the exact result rounded to the nearest
  representable number, ties to the even significand. \<open>fl\<close> is that rounding: a
  significand of 53 bits, the least exponent \<open>-1074\<close> (subnormal numbers), and overflow
  to an infinity from \<open>2 ^ 1024\<close> on.
\<close>

datatype pyfloat = Fin rat | PInf | NInf | NaN

fun bitlen :: "nat \<Rightarrow> nat" where
  "bitlen n = (if n = 0 then 0 else Suc (bitlen (n div 2)))"

declare bitlen.simps [simp del]

definition ilog2 :: "rat \<Rightarrow> int" where
  "ilog2 a = (if 1 \<le> a then int (bitlen (nat \<lfloor>a\<rfloor>)) - 1
              else - int (bitlen (nat (\<lceil>1 / a\<rceil> - 1))))"

definition pow2 :: "int \<Rightarrow> rat" where
  "pow2 e = (if 0 \<le> e then 2 ^ nat e else 1 / 2 ^ nat (- e))"

definition round_half_even :: "rat \<Rightarrow> int" where
  "round_half_even q =
     (let f = \<lfloor>q\<rfloor>; d = q - of_int f
      in if d < 1 / 2 then f else if 1 / 2 < d then f + 1
         else if even f then f else f + 1)"

definition fl :: "rat \<Rightarrow> pyfloat" where
  "fl q =
     (if q = 0 then Fin 0
      else let a = \<bar>q\<bar>;
               e = max (ilog2 a - 52) (- 1074);
               r = of_int (round_half_even (a / pow2 e)) * pow2 e
           in if 2 ^ 1024 \<le> r then (if 0 < q then PInf else NInf)
              else Fin (if 0 < q then r else - r))"

text \<open>\<open>x + y\<close> on floats.\<close>

fun float_add :: "pyfloat \<Rightarrow> pyfloat \<Rightarrow> pyfloat" where
  "float_add (Fin a) (Fin b) = fl (a + b)"
| "float_add (Fin a) y = y"
| "float_add x (Fin b) = x"
| "float_add PInf PInf = PInf"
| "float_add NInf NInf = NInf"
| "float_add x y = NaN"

text \<open>\<open>x < y\<close> on floats: every comparison with NaN is false.\<close>

fun float_lt :: "pyfloat \<Rightarrow> pyfloat \<Rightarrow> bool" where
  "float_lt (Fin a) (Fin b) = (a < b)"
| "float_lt NaN y = False"
| "float_lt x NaN = False"
| "float_lt x NInf = False"
| "float_lt PInf y = False"
| "float_lt x y = True"

text \<open>
  \<open>x / y\<close> for a float \<open>x\<close> and a finite positive float \<open>y\<close>, the only divisor the script
  has: the length of a list.
\<close>

fun float_div_pos :: "pyfloat \<Rightarrow> rat \<Rightarrow> pyfloat" where
  "float_div_pos (Fin a) b = fl (a / b)"
| "float_div_pos x b = x"

text \<open>
  \<open>round(x, 2)\<close>: CPython prints the exact binary value of \<open>x\<close> with two decimals,
  correctly rounded (ties to the even digit), and reads the decimal string back as the
  nearest float. Infinities and NaN are returned as they are.
\<close>

fun py_round2 :: "pyfloat \<Rightarrow> pyfloat" where
  "py_round2 (Fin q) = fl (of_int (round_half_even (q * 100)) / 100)"
| "py_round2 x = x"

section \<open>Python values, exceptions and output\<close>

text \<open>
  The values a row of \<open>csv.DictReader\<close> can hold (a string; \<open>None\<close> for a missing cell;
  a list of strings for surplus cells, under the key \<open>None\<close>) and the float that ingestion
  stores. A dictionary is a map from values to values.
\<close>

datatype pyval = PStr string | PFloat pyfloat | PNone | PList "string list"

type_synonym pydict = "pyval \<rightharpoonup> pyval"

datatype py_exc = KeyError | TypeError | ValueError | AttributeError | ZeroDivisionError
  | FileNotFoundError | PermissionError | OSError | UnicodeDecodeError

text \<open>A list cannot be a dictionary key: hashing it raises \<open>TypeError\<close>.\<close>

fun hashable :: "pyval \<Rightarrow> bool" where
  "hashable (PList xs) = False"
| "hashable v = True"

text \<open>One row of the report: \<open>{'brand': ..., 'average_rating': ...}\<close>.\<close>

record report_row =
  brand :: pyval
  average_rating :: pyfloat

text \<open>
  What the program prints. The texts are Russian sentences in the source; each
  constructor stands for one \<open>print\<close> call and carries the values its f-string formats.
\<close>

datatype message =
    WarnMissingColumns string           \<comment> \<open>line 20: file lacks column brand or rating\<close>
  | WarnBadRating pyfloat nat string    \<comment> \<open>line 42: rating, row number, file\<close>
  | WarnBadFormat nat string            \<comment> \<open>line 51: row number, file\<close>
  | WarnNoValidData string              \<comment> \<open>line 55: no valid row in the file\<close>
  | ErrFileNotFound string              \<comment> \<open>line 58\<close>
  | ErrNoReadAccess string              \<comment> \<open>lines 61 and 125\<close>
  | ErrReadingFile string py_exc        \<comment> \<open>line 64: file, exception\<close>
  | ErrNoDataRead                       \<comment> \<open>line 68: no record in any file\<close>
  | WarnSkippedRecords nat              \<comment> \<open>line 89: number of skipped records\<close>
  | ErrNoRatingData                     \<comment> \<open>line 92: nothing to aggregate\<close>
  | ErrFileDoesNotExist string          \<comment> \<open>line 119\<close>
  | ErrNotCsvFile string                \<comment> \<open>line 122\<close>
  | ErrNoValidFiles                     \<comment> \<open>line 131\<close>
  | EmptyReport                         \<comment> \<open>line 141: the report is empty\<close>
  | Table "report_row list"             \<comment> \<open>line 145: the rendered table\<close>
  | Interrupted                         \<comment> \<open>line 148\<close>
  | UnexpectedError py_exc              \<comment> \<open>line 151\<close>

datatype stream = Stdout | Stderr

type_synonym printed = "(stream \<times> message) list"

text \<open>\<open>print(m)\<close> with no \<open>file\<close> argument writes to \<open>sys.stdout\<close>.\<close>

definition print :: "message \<Rightarrow> printed" where
  "print m = [(Stdout, m)]"

section \<open>Strings\<close>

text \<open>
  A string is a list of characters with code points below 256. \<open>str.strip()\<close> removes
  the characters for which \<open>str.isspace\<close> holds from both ends; below 256 these are the
  code points 9 to 13, 28 to 32, 133 and 160.
\<close>

definition py_isspace :: "char \<Rightarrow> bool" where
  "py_isspace c = (c \<in> set [CHR 0x09, CHR 0x0A, CHR 0x0B, CHR 0x0C, CHR 0x0D, CHR 0x1C,
                               CHR 0x1D, CHR 0x1E, CHR 0x1F, CHR 0x20, CHR 0x85, CHR 0xA0])"

definition strip :: "string \<Rightarrow> string" where
  "strip s = rev (dropWhile py_isspace (rev (dropWhile py_isspace s)))"

text \<open>\<open>str.lower()\<close> below 256: the letters A to Z, and 0xC0 to 0xDE without 0xD7, move up by 32.\<close>

definition ascii_lower :: "char \<Rightarrow> char" where
  "ascii_lower c =
     (case map_of (zip ''ABCDEFGHIJKLMNOPQRSTUVWXYZ'' ''abcdefghijklmnopqrstuvwxyz'') c of
        Some l \<Rightarrow> l
      | None \<Rightarrow> c)"

definition latin1_upper :: "char list" where
  "latin1_upper =
     [CHR 0xC0, CHR 0xC1, CHR 0xC2, CHR 0xC3, CHR 0xC4, CHR 0xC5, CHR 0xC6, CHR 0xC7, CHR
     0xC8, CHR 0xC9, CHR 0xCA, CHR 0xCB, CHR 0xCC, CHR 0xCD, CHR 0xCE, CHR 0xCF, CHR
     0xD0, CHR 0xD1, CHR 0xD2, CHR 0xD3, CHR 0xD4, CHR 0xD5, CHR 0xD6, CHR 0xD8, CHR
     0xD9, CHR 0xDA, CHR 0xDB, CHR 0xDC, CHR 0xDD, CHR 0xDE]"

definition latin1_lower :: "char list" where
  "latin1_lower =
     [CHR 0xE0, CHR 0xE1, CHR 0xE2, CHR 0xE3, CHR 0xE4, CHR 0xE5, CHR 0xE6, CHR 0xE7, CHR
     0xE8, CHR 0xE9, CHR 0xEA, CHR 0xEB, CHR 0xEC, CHR 0xED, CHR 0xEE, CHR 0xEF, CHR
     0xF0, CHR 0xF1, CHR 0xF2, CHR 0xF3, CHR 0xF4, CHR 0xF5, CHR 0xF6, CHR 0xF8, CHR
     0xF9, CHR 0xFA, CHR 0xFB, CHR 0xFC, CHR 0xFD, CHR 0xFE]"

definition py_lower_char :: "char \<Rightarrow> char" where
  "py_lower_char c =
     (case map_of (zip latin1_upper latin1_lower) c of
        Some l \<Rightarrow> l
      | None \<Rightarrow> ascii_lower c)"

definition endswith :: "string \<Rightarrow> string \<Rightarrow> bool" where
  "endswith s suffix =
     (length suffix \<le> length s \<and> drop (length s - length suffix) s = suffix)"

section \<open>\<open>float(s)\<close> for a string\<close>

text \<open>
  CPython first replaces every character from 127 on by a space, if it is whitespace,
  and by \<open>?\<close> otherwise (a decimal digit beyond ASCII would become an ASCII digit; there
  is none below 256). It then checks that every underscore stands between two digits and
  removes the underscores, strips the C whitespace (9 to 13 and 32) from both ends, and
  parses the whole rest as

  \<^verbatim>\<open>[sign] (digits [. [digits]] | . digits) [(e|E) [sign] digits]\<close>

  or as \<open>inf\<close>, \<open>infinity\<close> or \<open>nan\<close> (in any case, with an optional sign). Anything else
  raises \<open>ValueError\<close>. The decimal number is rounded to the nearest float; one too large
  becomes an infinity.
\<close>

definition to_ascii :: "char \<Rightarrow> char" where
  "to_ascii c = (if (of_char c :: nat) < 127 then c
                 else if py_isspace c then CHR '' '' else CHR ''?'')"

definition c_isspace :: "char \<Rightarrow> bool" where
  "c_isspace c = (c \<in> set [CHR 0x09, CHR 0x0A, CHR 0x0B, CHR 0x0C, CHR 0x0D, CHR 0x20])"

definition is_digit :: "char \<Rightarrow> bool" where
  "is_digit c = (c \<in> set ''0123456789'')"

fun underscores_ok :: "char \<Rightarrow> string \<Rightarrow> bool" where
  "underscores_ok prev [] = (prev \<noteq> CHR ''_'')"
| "underscores_ok prev (c # cs) =
     ((if c = CHR ''_'' then is_digit prev
       else if prev = CHR ''_'' then is_digit c else True)
      \<and> underscores_ok c cs)"

definition digits_val :: "string \<Rightarrow> nat" where
  "digits_val ds = foldl (\<lambda>n c. 10 * n + (of_char c - 48)) 0 ds"

definition pow10 :: "int \<Rightarrow> rat" where
  "pow10 e = (if 0 \<le> e then 10 ^ nat e else 1 / 10 ^ nat (- e))"

text \<open>A leading sign: whether it is a minus, and the rest.\<close>

fun split_sign :: "string \<Rightarrow> bool \<times> string" where
  "split_sign [] = (False, [])"
| "split_sign (c # cs) =
     (if c = CHR ''-'' then (True, cs) else if c = CHR ''+'' then (False, cs)
      else (False, c # cs))"

text \<open>The exponent part, from the \<open>e\<close> on: empty, or \<open>e\<close>, a sign and digits.\<close>

definition parse_exponent :: "string \<Rightarrow> int option" where
  "parse_exponent s =
     (case s of
        [] \<Rightarrow> Some 0
      | c # cs \<Rightarrow>
          if c = CHR ''e'' \<or> c = CHR ''E'' then
            (let (neg, ds) = split_sign cs
             in if ds \<noteq> [] \<and> list_all is_digit ds
                then Some (if neg then - int (digits_val ds) else int (digits_val ds))
                else None)
          else None)"

definition parse_decimal :: "string \<Rightarrow> rat option" where
  "parse_decimal s =
     (let ds1 = takeWhile is_digit s; r1 = dropWhile is_digit s;
          (ds2, r2) = (case r1 of
                         [] \<Rightarrow> ([], [])
                       | c # cs \<Rightarrow> if c = CHR ''.''
                                  then (takeWhile is_digit cs, dropWhile is_digit cs)
                                  else ([], r1))
      in if ds1 = [] \<and> ds2 = [] then None
         else case parse_exponent r2 of
                None \<Rightarrow> None
              | Some e \<Rightarrow> Some (of_nat (digits_val (ds1 @ ds2)) * pow10 (e - int (length ds2))))"

definition parse_double :: "string \<Rightarrow> py_exc + pyfloat" where
  "parse_double s =
     (let (neg, body) = split_sign s; word = map ascii_lower body
      in if word = ''inf'' \<or> word = ''infinity'' then Inr (if neg then NInf else PInf)
         else if word = ''nan'' then Inr NaN
         else case parse_decimal body of
                None \<Rightarrow> Inl ValueError
              | Some q \<Rightarrow> Inr (fl (if neg then - q else q)))"

definition py_float :: "string \<Rightarrow> py_exc + pyfloat" where
  "py_float s =
     (let t = map to_ascii s
      in if \<not> underscores_ok (CHR 0x00) t then Inl ValueError
         else parse_double
                (rev (dropWhile c_isspace (rev (dropWhile c_isspace
                   (filter (\<lambda>c. c \<noteq> CHR ''_'') t))))))"

section \<open>The aggregator: \<open>calculate_average_rating\<close>\<close>

text \<open>
  \<open>brand_ratings\<close> is a \<open>defaultdict(list)\<close>; a Python dictionary iterates in the order
  in which its keys were first inserted, so it is an association list here. Keys are
  compared as values, which is Python's equality of keys for strings and \<open>None\<close>.
  \<open>brand_ratings[b].append(r)\<close>:
\<close>

fun dict_append :: "pyval \<Rightarrow> pyval \<Rightarrow> (pyval \<times> pyval list) list \<Rightarrow> (pyval \<times> pyval list) list" where
  "dict_append b r [] = [(b, [r])]"
| "dict_append b r ((k, rs) # kvs) =
     (if k = b then (k, rs @ [r]) # kvs else (k, rs) # dict_append b r kvs)"

text \<open>
  The body of the first loop (lines 80--86), as a result: the pair to append, or the
  exception that the \<open>except (KeyError, TypeError)\<close> clause catches.
\<close>

definition brand_rating_pair :: "pydict \<Rightarrow> py_exc + (pyval \<times> pyval)" where
  "brand_rating_pair row =
     (case row (PStr ''brand'') of
        None \<Rightarrow> Inl KeyError
      | Some b \<Rightarrow>
          (case row (PStr ''rating'') of
             None \<Rightarrow> Inl KeyError
           | Some r \<Rightarrow> if hashable b then Inr (b, r) else Inl TypeError))"

fun group_rows :: "pydict list \<Rightarrow> (pyval \<times> pyval list) list \<Rightarrow> nat
    \<Rightarrow> (pyval \<times> pyval list) list \<times> nat" where
  "group_rows [] brand_ratings skipped_count = (brand_ratings, skipped_count)"
| "group_rows (row # data) brand_ratings skipped_count =
     (case brand_rating_pair row of
        Inl e \<Rightarrow> group_rows data brand_ratings (skipped_count + 1)
      | Inr (b, r) \<Rightarrow> group_rows data (dict_append b r brand_ratings) skipped_count)"

text \<open>
  \<open>sum(ratings)\<close> starts from the integer 0 and adds from left to right; adding a string,
  \<open>None\<close> or a list to a number raises \<open>TypeError\<close>. (From CPython 3.12 on, \<open>sum\<close> also
  carries a compensation term for floats; the plain left-to-right sum is modelled.)
\<close>

fun sum_from :: "pyfloat \<Rightarrow> pyval list \<Rightarrow> py_exc + pyfloat" where
  "sum_from acc [] = Inr acc"
| "sum_from acc (PFloat x # rs) = sum_from (float_add acc x) rs"
| "sum_from acc (v # rs) = Inl TypeError"

definition py_sum :: "pyval list \<Rightarrow> py_exc + pyfloat" where
  "py_sum rs = sum_from (Fin 0) rs"

text \<open>
  \<open>s / len(ratings)\<close>: the length becomes a float (rounded, should it need more than 53
  bits) and divides; a zero length raises. A list is shorter than \<open>2 ^ 63\<close>, and such
  a length becomes a finite positive float (lemma \<open>truediv_len_in_range\<close>). Only a
  length from about \<open>2 ^ 1024\<close> on would not, where CPython raises \<open>OverflowError\<close>;
  no list is that long, and the last case of the definition stands for it.
\<close>

definition truediv_len :: "pyfloat \<Rightarrow> nat \<Rightarrow> py_exc + pyfloat" where
  "truediv_len s n =
     (if n = 0 then Inl ZeroDivisionError
      else case fl (of_nat n) of
             Fin b \<Rightarrow> Inr (float_div_pos s b)
           | d \<Rightarrow> Inr (Fin 0))"

text \<open>Lines 97 and 98: \<open>round(sum(ratings) / len(ratings), 2)\<close>.\<close>

definition rounded_average :: "pyval list \<Rightarrow> py_exc + pyfloat" where
  "rounded_average ratings =
     (case py_sum ratings of
        Inl e \<Rightarrow> Inl e
      | Inr s \<Rightarrow> (case truediv_len s (length ratings) of
                    Inl e \<Rightarrow> Inl e
                  | Inr avg_rating \<Rightarrow> Inr (py_round2 avg_rating)))"

fun build_report :: "(pyval \<times> pyval list) list \<Rightarrow> py_exc + report_row list" where
  "build_report [] = Inr []"
| "build_report ((b, ratings) # kvs) =
     (case rounded_average ratings of
        Inl e \<Rightarrow> Inl e
      | Inr a \<Rightarrow> (case build_report kvs of
                  Inl e \<Rightarrow> Inl e
                | Inr report \<Rightarrow> Inr (\<lparr>brand = b, average_rating = a\<rparr> # report)))"

text \<open>
  \<open>sorted(report, key=..., reverse=True)\<close>. Python's sort is stable, also with
  \<open>reverse=True\<close>: rows with equal keys keep their order, and a row moves behind exactly
  the rows whose key is greater. Where \<open><\<close> orders the keys totally, that determines
  the result, and this insertion sort computes it. With a NaN among the keys CPython's
  result depends on how its merge sort cuts the list into runs; nothing below states the
  order of such a report with more than one row.
\<close>

fun insert_desc :: "report_row \<Rightarrow> report_row list \<Rightarrow> report_row list" where
  "insert_desc x [] = [x]"
| "insert_desc x (y # ys) =
     (if float_lt (average_rating x) (average_rating y) then y # insert_desc x ys
      else x # y # ys)"

fun sorted_desc :: "report_row list \<Rightarrow> report_row list" where
  "sorted_desc [] = []"
| "sorted_desc (x # xs) = insert_desc x (sorted_desc xs)"

text \<open>
  The function returns what it printed together with the report, or with the
  exception that leaves it.
\<close>

definition calculate_average_rating :: "pydict list \<Rightarrow> printed \<times> (py_exc + report_row list)" where
  "calculate_average_rating data =
     (let (brand_ratings, skipped_count) = group_rows data [] 0;
          out = (if 0 < skipped_count then print (WarnSkippedRecords skipped_count) else [])
      in if brand_ratings = [] then (out @ print ErrNoRatingData, Inr [])
         else case build_report brand_ratings of
                Inl e \<Rightarrow> (out, Inl e)
              | Inr report \<Rightarrow> (out, Inr (sorted_desc report)))"

section \<open>The row ingestor: \<open>read_csv_files\<close>\<close>

text \<open>\<open>d.get(k)\<close>, the truth value of a Python value, and \<open>v.strip()\<close>.\<close>

definition py_get :: "pydict \<Rightarrow> pyval \<Rightarrow> pyval" where
  "py_get d k = (case d k of None \<Rightarrow> PNone | Some v \<Rightarrow> v)"

fun truthy :: "pyval \<Rightarrow> bool" where
  "truthy (PStr s) = (s \<noteq> [])"
| "truthy (PFloat x) = (x \<noteq> Fin 0)"
| "truthy PNone = False"
| "truthy (PList xs) = (xs \<noteq> [])"

fun py_strip :: "pyval \<Rightarrow> py_exc + string" where
  "py_strip (PStr s) = Inr (strip s)"
| "py_strip v = Inl AttributeError"

text \<open>
  The body of the row loop (lines 25--52): the row is skipped, possibly with a warning,
  or accepted as a record, or an exception that the inner \<open>except (ValueError,
  TypeError)\<close> does not catch leaves the loop.
\<close>

datatype row_result = Skipped printed | Accepted pydict | Raised py_exc

text \<open>
  What the \<open>except (ValueError, TypeError)\<close> clause does with an exception of the body;
  \<open>UnicodeDecodeError\<close> is a subclass of \<open>ValueError\<close>.
\<close>

definition row_except :: "nat \<Rightarrow> string \<Rightarrow> py_exc \<Rightarrow> row_result" where
  "row_except row_num file e =
     (if e = ValueError \<or> e = TypeError \<or> e = UnicodeDecodeError
      then Skipped (print (WarnBadFormat row_num file)) else Raised e)"

definition process_row :: "string \<Rightarrow> nat \<Rightarrow> pydict \<Rightarrow> row_result" where
  "process_row file row_num row =
     (if \<not> truthy (py_get row (PStr ''brand'')) \<or> \<not> truthy (py_get row (PStr ''rating''))
      then Skipped []
      else case py_strip (py_get row (PStr ''brand'')) of
             Inl e \<Rightarrow> row_except row_num file e
           | Inr b \<Rightarrow>
        (case py_strip (py_get row (PStr ''rating'')) of
             Inl e \<Rightarrow> row_except row_num file e
           | Inr rating_str \<Rightarrow>
               if b = [] \<or> rating_str = [] then Skipped []
               else case py_float rating_str of
                      Inl e \<Rightarrow> row_except row_num file e
                    | Inr rating \<Rightarrow>
                        if float_lt rating (Fin 0) \<or> float_lt (Fin 5) rating
                        then Skipped (print (WarnBadRating rating row_num file))
                        else Accepted (row(PStr ''brand'' \<mapsto> PStr b,
                                           PStr ''rating'' \<mapsto> PFloat rating))))"

text \<open>
  The rows of one file, numbered from \<open>row_num\<close>: what was printed, and the records
  accepted or the exception that ended the loop.
\<close>

fun process_rows :: "string \<Rightarrow> nat \<Rightarrow> pydict list \<Rightarrow> printed \<times> (py_exc + pydict list)" where
  "process_rows file row_num [] = ([], Inr [])"
| "process_rows file row_num (row # rows) =
     (case process_row file row_num row of
        Raised e \<Rightarrow> ([], Inl e)
      | Skipped out \<Rightarrow>
          (case process_rows file (row_num + 1) rows of (out', r) \<Rightarrow> (out @ out', r))
      | Accepted record \<Rightarrow>
          (case process_rows file (row_num + 1) rows of
             (out', Inl e) \<Rightarrow> (out', Inl e)
           | (out', Inr records) \<Rightarrow> (out', Inr (record # records))))"

text \<open>
  What \<open>open\<close> and \<open>csv.DictReader\<close> give for a path: an exception on opening the file
  or reading its header; or the field names (\<open>None\<close> for an empty file), the rows the
  reader yields, and the exception, if any, that it raises after them (a byte sequence
  that is not UTF-8 further down the file, say).
\<close>

datatype csv_source =
    Raises py_exc
  | Reader "string list option" "pydict list" "py_exc option"

text \<open>A function either returns or ends the process: \<open>sys.exit(code)\<close>.\<close>

datatype 'a result = Exit nat | Return 'a

text \<open>The three \<open>except\<close> clauses of lines 57--65.\<close>

definition file_error :: "string \<Rightarrow> py_exc \<Rightarrow> printed \<times> pydict list result" where
  "file_error file e =
     (if e = FileNotFoundError then (print (ErrFileNotFound file), Exit 1)
      else if e = PermissionError then (print (ErrNoReadAccess file), Exit 1)
      else (print (ErrReadingFile file e), Exit 1))"

definition read_file :: "string \<Rightarrow> csv_source \<Rightarrow> printed \<times> pydict list result" where
  "read_file file src =
     (case src of
        Raises e \<Rightarrow> file_error file e
      | Reader fieldnames rows failure \<Rightarrow>
          if fieldnames = None
             \<or> \<not> list_all (\<lambda>field. field \<in> set (the fieldnames)) [''brand'', ''rating'']
          then (print (WarnMissingColumns file), Return [])
          else case process_rows file 2 rows of
                 (out, Inl e) \<Rightarrow> (case file_error file e of (out', r) \<Rightarrow> (out @ out', r))
               | (out, Inr records) \<Rightarrow>
                   (case failure of
                      Some e \<Rightarrow> (case file_error file e of (out', r) \<Rightarrow> (out @ out', r))
                    | None \<Rightarrow>
                        (out @ (if length records = 0 then print (WarnNoValidData file) else []),
                         Return records)))"

fun read_files :: "(string \<Rightarrow> csv_source) \<Rightarrow> string list \<Rightarrow> printed \<times> pydict list result" where
  "read_files opn [] = ([], Return [])"
| "read_files opn (file # files) =
     (case read_file file (opn file) of
        (out, Exit c) \<Rightarrow> (out, Exit c)
      | (out, Return records) \<Rightarrow>
          (case read_files opn files of
             (out', Exit c) \<Rightarrow> (out @ out', Exit c)
           | (out', Return data) \<Rightarrow> (out @ out', Return (records @ data))))"

definition read_csv_files :: "(string \<Rightarrow> csv_source) \<Rightarrow> string list \<Rightarrow> printed \<times> pydict list result" where
  "read_csv_files opn files =
     (case read_files opn files of
        (out, Exit c) \<Rightarrow> (out, Exit c)
      | (out, Return data) \<Rightarrow>
          if data = [] then (out @ print ErrNoDataRead, Exit 1) else (out, Return data))"

section \<open>The orchestration: \<open>main\<close>\<close>

text \<open>
  The file system as \<open>main\<close> sees it: \<open>os.path.isfile\<close>, \<open>os.access(_, os.R_OK)\<close> and
  what opening a path gives.
\<close>

record filesystem =
  isfile :: "string \<Rightarrow> bool"
  access_r :: "string \<Rightarrow> bool"
  open_csv :: "string \<Rightarrow> csv_source"

fun validate_files :: "filesystem \<Rightarrow> string list \<Rightarrow> printed \<times> string list result" where
  "validate_files fs [] = ([], Return [])"
| "validate_files fs (file # files) =
     (if \<not> isfile fs file then (print (ErrFileDoesNotExist file), Exit 1)
      else if \<not> endswith (map py_lower_char file) ''.csv'' then (print (ErrNotCsvFile file), Exit 1)
      else if \<not> access_r fs file then (print (ErrNoReadAccess file), Exit 1)
      else case validate_files fs files of
             (out, Exit c) \<Rightarrow> (out, Exit c)
           | (out, Return valid_files) \<Rightarrow> (out, Return (file # valid_files)))"

text \<open>
  \<open>main\<close> after \<open>parse_args\<close> has returned: \<open>files\<close> is \<open>args.files\<close>, and \<open>handler\<close>
  is \<open>report_handlers[args.report]\<close> (\<open>argparse\<close> admits only the keys of the registry).
  The result is everything printed and the exit status of the process. \<open>SystemExit\<close> is
  not an \<open>Exception\<close>, so the last \<open>except\<close> clause lets every \<open>sys.exit\<close> through and
  catches only what the handler raises.
\<close>

type_synonym handler = "pydict list \<Rightarrow> printed \<times> (py_exc + report_row list)"

definition main_with :: "handler \<Rightarrow> filesystem \<Rightarrow> string list \<Rightarrow> printed \<times> nat" where
  "main_with handler fs files =
     (case validate_files fs files of
        (out, Exit c) \<Rightarrow> (out, c)
      | (out, Return valid_files) \<Rightarrow>
          if valid_files = [] then (out @ print ErrNoValidFiles, 1)
          else case read_csv_files (open_csv fs) valid_files of
                 (out2, Exit c) \<Rightarrow> (out @ out2, c)
               | (out2, Return data) \<Rightarrow>
                   (case handler data of
                      (out3, Inl e) \<Rightarrow> (out @ out2 @ out3 @ print (UnexpectedError e), 1)
                    | (out3, Inr report_data) \<Rightarrow>
                        if report_data = []
                        then (out @ out2 @ out3 @ print EmptyReport, 0)
                        else (out @ out2 @ out3 @ print (Table report_data), 0)))"

text \<open>The registry holds one handler, under \<open>average-rating\<close>.\<close>

definition main :: "filesystem \<Rightarrow> string list \<Rightarrow> printed \<times> nat" where
  "main fs files = main_with calculate_average_rating fs files"

section \<open>Notions used in the statements\<close>

text \<open>
  The order of first appearance: \<open>first_seen xs\<close> lists the distinct elements of \<open>xs\<close>,
  each at the place of its first occurrence, and \<open>first_index x xs\<close> is the position of
  the first \<open>x\<close> in \<open>xs\<close>.
\<close>

definition first_seen :: "'a list \<Rightarrow> 'a list" where
  "first_seen xs = rev (remdups (rev xs))"

definition first_index :: "'a \<Rightarrow> 'a list \<Rightarrow> nat" where
  "first_index x xs = length (takeWhile (\<lambda>y. y \<noteq> x) xs)"

text \<open>The brand and the rating of a row, and the ratings of one brand in input order.\<close>

definition brand_of :: "pydict \<Rightarrow> pyval" where
  "brand_of row = py_get row (PStr ''brand'')"

definition rating_of :: "pydict \<Rightarrow> pyval" where
  "rating_of row = py_get row (PStr ''rating'')"

definition ratings_of :: "pyval \<Rightarrow> pydict list \<Rightarrow> pyval list" where
  "ratings_of b data = map rating_of (filter (\<lambda>row. brand_of row = b) data)"

text \<open>
  A record in the sense of the aggregator's contract: the brand is a string and the
  rating a finite float. (The records of the data model are among them: there the brand
  is also non-empty and the rating lies between 0 and 5.)
\<close>

fun is_str :: "pyval \<Rightarrow> bool" where
  "is_str (PStr s) = True"
| "is_str v = False"

fun is_finite_float :: "pyval \<Rightarrow> bool" where
  "is_finite_float (PFloat (Fin q)) = True"
| "is_finite_float v = False"

definition record_row :: "pydict \<Rightarrow> bool" where
  "record_row row = (is_str (brand_of row) \<and> is_finite_float (rating_of row))"

text \<open>\<open>x <= y\<close> on floats.\<close>

fun float_le :: "pyfloat \<Rightarrow> pyfloat \<Rightarrow> bool" where
  "float_le (Fin a) (Fin b) = (a \<le> b)"
| "float_le NaN y = False"
| "float_le x NaN = False"
| "float_le NInf y = True"
| "float_le x PInf = True"
| "float_le x y = False"

text \<open>
  The pairs that the first loop of the aggregator appends, the dictionary they build,
  and the report before it is sorted.
\<close>

definition pairs_of :: "pydict list \<Rightarrow> (pyval \<times> pyval) list" where
  "pairs_of data =
     concat (map (\<lambda>row. case brand_rating_pair row of Inl e \<Rightarrow> [] | Inr p \<Rightarrow> [p]) data)"

definition grouped :: "(pyval \<times> pyval) list \<Rightarrow> (pyval \<times> pyval list) list" where
  "grouped ps =
     map (\<lambda>b. (b, map snd (filter (\<lambda>p. fst p = b) ps))) (first_seen (map fst ps))"

definition report_in_first_seen_order :: "pydict list \<Rightarrow> report_row list" where
  "report_in_first_seen_order data =
     map (\<lambda>b. \<lparr>brand = b, average_rating = projr (rounded_average (ratings_of b data))\<rparr>)
       (first_seen (map brand_of data))"

text \<open>
  The exact side of an average: the rational a finite rating denotes, the arithmetic
  mean of a list of ratings as a rational, and the ratings of the data model, which lie
  within 0 and 5.
\<close>

fun rating_in_range :: "pyval \<Rightarrow> bool" where
  "rating_in_range (PFloat (Fin q)) = (0 \<le> q \<and> q \<le> 5)"
| "rating_in_range v = False"

fun rating_value :: "pyval \<Rightarrow> rat" where
  "rating_value (PFloat (Fin q)) = q"
| "rating_value v = 0"

definition exact_mean :: "pyval list \<Rightarrow> rat" where
  "exact_mean ratings = sum_list (map rating_value ratings) / of_nat (length ratings)"

definition ratings_in_range :: "pydict list \<Rightarrow> bool" where
  "ratings_in_range data = list_all (\<lambda>row. rating_in_range (rating_of row)) data"

text \<open>
  Predicates on what was printed: every message went to standard output; no message is
  the rendered table.
\<close>

definition is_table :: "message \<Rightarrow> bool" where
  "is_table m = (case m of Table report \<Rightarrow> True | _ \<Rightarrow> False)"

definition on_stdout :: "printed \<Rightarrow> bool" where
  "on_stdout out = list_all (\<lambda>ev. fst ev = Stdout) out"

definition no_table :: "printed \<Rightarrow> bool" where
  "no_table out = list_all (\<lambda>ev. \<not> is_table (snd ev)) out"

text \<open>A file system in which every path is a readable regular file.\<close>

definition all_readable :: "(string \<Rightarrow> csv_source) \<Rightarrow> filesystem" where
  "all_readable opn = \<lparr>isfile = (\<lambda>path. True), access_r = (\<lambda>path. True), open_csv = opn\<rparr>"

section \<open>Evaluating the model\<close>

text \<open>Rewrite rules that compute \<open>bitlen\<close>, floors and ceilings on numerals.\<close>

lemma bitlen_0: "bitlen 0 = 0"
  by (simp add: bitlen.simps)

lemma bitlen_pos: "0 < n \<Longrightarrow> bitlen n = Suc (bitlen (n div 2))"
  by (subst bitlen.simps) simp

lemma floor_rat_numeral: "\<lfloor>numeral a / numeral b :: rat\<rfloor> = numeral a div numeral b"
  by (metis floor_divide_of_int_eq of_int_numeral)

lemma floor_rat_neg_numeral:
  "\<lfloor>- (numeral a / numeral b) :: rat\<rfloor> = - numeral a div numeral b"
  by (metis divide_minus_left floor_divide_of_int_eq of_int_neg_numeral of_int_numeral)

lemma floor_rat_one_div: "\<lfloor>1 / numeral b :: rat\<rfloor> = 1 div numeral b"
  by (metis floor_divide_of_int_eq of_int_1 of_int_numeral)

lemma ceiling_rat_numeral:
  "\<lceil>numeral a / numeral b :: rat\<rceil> = - (- numeral a div numeral b)"
  unfolding ceiling_def
  by (metis divide_minus_left floor_divide_of_int_eq of_int_neg_numeral of_int_numeral)

lemmas fl_eval = fl_def ilog2_def pow2_def round_half_even_def Let_def bitlen_0 bitlen_pos
  floor_rat_numeral floor_rat_neg_numeral floor_rat_one_div ceiling_rat_numeral

lemmas float_eval = py_float_def parse_double_def parse_decimal_def parse_exponent_def
  to_ascii_def c_isspace_def is_digit_def digits_val_def pow10_def ascii_lower_def

lemmas aggregate_eval = calculate_average_rating_def brand_rating_pair_def
  rounded_average_def py_sum_def truediv_len_def print_def

lemmas ingest_eval = read_csv_files_def read_file_def process_row_def row_except_def
  file_error_def py_get_def strip_def py_isspace_def print_def

lemmas main_eval = main_def main_with_def endswith_def py_lower_char_def ascii_lower_def
  latin1_upper_def latin1_lower_def

lemmas record_eval = record_row_def brand_of_def rating_of_def py_get_def

lemmas fs_eval = all_readable_def no_table_def on_stdout_def is_table_def

section \<open>The rounding of binary64\<close>

text \<open>
  \<open>ilog2 a\<close> is the binary exponent of \<open>a\<close>; a finite \<open>fl q\<close> is a number with a
  significand of at most 53 bits whose distance from \<open>q\<close> is at most half a unit in the
  last place; and the length of a list becomes a finite positive float.
\<close>

lemma bitlen_bounds: "0 < n \<Longrightarrow> 2 ^ (bitlen n - 1) \<le> n \<and> n < 2 ^ bitlen n"
proof (induction n rule: bitlen.induct)
  case (1 n)
  show ?case
  proof (cases "n div 2 = 0")
    case True
    with "1.prems" have "n = 1" by (simp add: div_eq_0_iff) 
    then show ?thesis by (simp add: bitlen_pos bitlen_0)
  next
    case False
    then have pos: "0 < n div 2" by simp
    from "1.IH" [OF _ pos] "1.prems"
    have ih: "2 ^ (bitlen (n div 2) - 1) \<le> n div 2" "n div 2 < 2 ^ bitlen (n div 2)" by simp_all
    have b: "bitlen n = Suc (bitlen (n div 2))" using "1.prems" by (simp add: bitlen_pos)
    have k: "0 < bitlen (n div 2)" using pos by (simp add: bitlen_pos)
    then obtain j where j: "bitlen (n div 2) = Suc j" by (cases "bitlen (n div 2)") simp_all
    from ih j have "2 * 2 ^ j \<le> 2 * (n div 2)" by simp
    also have "\<dots> \<le> n" by simp
    finally have lo: "2 ^ (bitlen n - 1) \<le> n" by (simp add: b j)
    from ih have "n div 2 + 1 \<le> 2 ^ bitlen (n div 2)" by simp
    then have "2 * (n div 2) + 2 \<le> 2 * 2 ^ bitlen (n div 2)" by simp
    moreover have "n < 2 * (n div 2) + 2" by presburger
    ultimately have "n < 2 ^ bitlen n" by (simp add: b)
    with lo show ?thesis by simp
  qed
qed

lemma pow2_pos [simp]: "0 < pow2 e"
  by (simp add: pow2_def)

lemma pow2_nat: "pow2 (int k) = 2 ^ k"
  by (simp add: pow2_def)

lemma pow2_neg_nat: "pow2 (- int k) = 1 / 2 ^ k"
  by (simp add: pow2_def)

lemma rat_of_nat_floor:
  assumes "1 \<le> (a::rat)"
  shows "0 < nat \<lfloor>a\<rfloor>" and "rat_of_nat (nat \<lfloor>a\<rfloor>) \<le> a" and "a < rat_of_nat (nat \<lfloor>a\<rfloor>) + 1"
proof -
  from assms have f: "1 \<le> \<lfloor>a\<rfloor>" by (simp add: le_floor_iff)
  then show "0 < nat \<lfloor>a\<rfloor>" by simp
  from f have e: "rat_of_nat (nat \<lfloor>a\<rfloor>) = of_int \<lfloor>a\<rfloor>" by simp
  show "rat_of_nat (nat \<lfloor>a\<rfloor>) \<le> a" unfolding e by (rule of_int_floor_le)
  show "a < rat_of_nat (nat \<lfloor>a\<rfloor>) + 1" unfolding e by (rule floor_correct [THEN conjunct2, simplified])
qed

lemma rat_pow2_le_nat: "2 ^ k \<le> (m::nat) \<Longrightarrow> (2::rat) ^ k \<le> rat_of_nat m"
proof -
  assume "2 ^ k \<le> m"
  then have "rat_of_nat (2 ^ k) \<le> rat_of_nat m" by (simp only: of_nat_le_iff)
  then show ?thesis by (simp only: of_nat_power of_nat_numeral)
qed

lemma rat_nat_less_pow2: "(m::nat) < 2 ^ k \<Longrightarrow> rat_of_nat m + 1 \<le> (2::rat) ^ k"
proof -
  assume "m < 2 ^ k"
  then have "Suc m \<le> 2 ^ k" by simp
  then have "rat_of_nat (Suc m) \<le> rat_of_nat (2 ^ k)" by (simp only: of_nat_le_iff)
  then show ?thesis by (simp only: of_nat_power of_nat_numeral of_nat_Suc)
qed

lemma ilog2_bounds_ge1:
  assumes "1 \<le> a"
  shows "0 \<le> ilog2 a" and "pow2 (ilog2 a) \<le> a" and "a < pow2 (ilog2 a + 1)"
proof -
  define m where "m = nat \<lfloor>a\<rfloor>"
  note m = rat_of_nat_floor [OF assms, folded m_def]
  from m(1) have "bitlen m = Suc (bitlen (m div 2))" by (rule bitlen_pos)
  then obtain j where j: "bitlen m = Suc j" by blast
  from bitlen_bounds [OF m(1)]
  have b: "2 ^ j \<le> m" "m < 2 ^ Suc j" unfolding j by simp_all
  have i: "ilog2 a = int j"
    unfolding ilog2_def using assms by (simp add: m_def [symmetric] j)
  show "0 \<le> ilog2 a" unfolding i by simp
  have "pow2 (ilog2 a) = 2 ^ j" unfolding i by (rule pow2_nat)
  with rat_pow2_le_nat [OF b(1)] m(2) show "pow2 (ilog2 a) \<le> a" by linarith
  have "ilog2 a + 1 = int (Suc j)" unfolding i by simp
  then have "pow2 (ilog2 a + 1) = 2 ^ Suc j" by (simp only: pow2_nat)
  with rat_nat_less_pow2 [OF b(2)] m(3) show "a < pow2 (ilog2 a + 1)" by linarith
qed

lemma ilog2_bounds_lt1:
  assumes "0 < a" and "a < 1"
  shows "pow2 (ilog2 a) \<le> a" and "a < pow2 (ilog2 a + 1)"
proof -
  define N where "N = \<lceil>1 / a\<rceil>"
  define m where "m = nat (N - 1)"
  from assms have a1: "1 < 1 / a" by simp
  have N: "1 / a \<le> of_int N" "of_int N - 1 < 1 / a"
    unfolding N_def by (rule le_of_int_ceiling) (use ceiling_correct [of "1 / a"] in linarith)
  from a1 N(1) have "1 < (of_int N :: rat)" by linarith
  then have N2: "2 \<le> N" by simp
  then have m: "0 < m" unfolding m_def by simp
  from N2 have mN: "rat_of_nat m = of_int N - 1" unfolding m_def by simp
  from m have "bitlen m = Suc (bitlen (m div 2))" by (rule bitlen_pos)
  then obtain j where j: "bitlen m = Suc j" by blast
  from bitlen_bounds [OF m]
  have b: "2 ^ j \<le> m" "m < 2 ^ Suc j" unfolding j by simp_all
  have i: "ilog2 a = - int (Suc j)"
    unfolding ilog2_def using assms by (simp add: N_def [symmetric] m_def [symmetric] j)
  have lo: "1 / a \<le> 2 ^ Suc j"
    using rat_nat_less_pow2 [OF b(2)] mN N(1) by linarith
  have hi: "2 ^ j < 1 / a"
    using rat_pow2_le_nat [OF b(1)] mN N(2) by linarith
  have "pow2 (ilog2 a) = 1 / 2 ^ Suc j" unfolding i by (rule pow2_neg_nat)
  also have "\<dots> \<le> a"
  proof -
    from lo assms(1) have "1 \<le> a * 2 ^ Suc j" by (simp add: field_simps)
    then show ?thesis by (simp add: field_simps)
  qed
  finally show "pow2 (ilog2 a) \<le> a" .
  have "ilog2 a + 1 = - int j" unfolding i by simp
  then have "pow2 (ilog2 a + 1) = 1 / 2 ^ j" by (simp only: pow2_neg_nat)
  moreover have "a < 1 / 2 ^ j"
  proof -
    from hi assms(1) have "a * 2 ^ j < 1" by (simp add: field_simps)
    then show ?thesis by (simp add: field_simps)
  qed
  ultimately show "a < pow2 (ilog2 a + 1)" by simp
qed

lemma ilog2_bounds:
  assumes "0 < a"
  shows "pow2 (ilog2 a) \<le> a \<and> a < pow2 (ilog2 a + 1)"
proof (cases "1 \<le> a")
  case True
  then show ?thesis using ilog2_bounds_ge1 by blast
next
  case False
  then have "a < 1" by simp
  with assms show ?thesis using ilog2_bounds_lt1 by blast
qed

lemma round_half_even_near: "\<bar>of_int (round_half_even x) - x\<bar> \<le> 1 / 2"
proof -
  define f where "f = \<lfloor>x\<rfloor>"
  have "of_int f \<le> x" "x < of_int f + 1"
    unfolding f_def by (rule of_int_floor_le) (use floor_correct [of x] in linarith)
  then show ?thesis
    unfolding round_half_even_def Let_def f_def [symmetric]
    by (auto simp: abs_if)
qed

lemma pow2_powi: "pow2 e = 2 powi e"
  by (simp add: pow2_def power_int_def inverse_eq_divide power_one_over)

lemma pow2_add: "pow2 (d + e) = pow2 d * pow2 e"
  by (simp add: pow2_powi power_int_add)

lemma pow2_nonneg [simp]: "0 \<le> pow2 e"
  by (simp add: pow2_def)

lemma pow2_neq0 [simp]: "pow2 e \<noteq> 0"
  by (simp add: pow2_def)

lemma pow2_mono: "d \<le> e \<Longrightarrow> pow2 d \<le> pow2 e"
  by (simp add: pow2_powi power_int_increasing)

lemma round_half_even_ge_floor: "\<lfloor>x\<rfloor> \<le> round_half_even x"
  by (simp add: round_half_even_def Let_def)

lemma round_half_even_le_floor: "round_half_even x \<le> \<lfloor>x\<rfloor> + 1"
  by (simp add: round_half_even_def Let_def)

lemma fl_cases:
  assumes "q \<noteq> 0"
  obtains m e where "e = max (ilog2 \<bar>q\<bar> - 52) (- 1074)"
    and "m = round_half_even (\<bar>q\<bar> / pow2 e)"
    and "fl q = (if 2 ^ 1024 \<le> of_int m * pow2 e then (if 0 < q then PInf else NInf)
                 else Fin (if 0 < q then of_int m * pow2 e else - (of_int m * pow2 e)))"
  using assms by (simp add: fl_def Let_def)

lemma significand_bounds:
  assumes "0 < a" and "e = max (ilog2 a - 52) (- 1074)" and "m = round_half_even (a / pow2 e)"
  shows "0 \<le> m" and "m \<le> 2 ^ 53" and "\<bar>of_int m * pow2 e - a\<bar> \<le> pow2 e / 2"
proof -
  let ?x = "a / pow2 e"
  have p: "0 < pow2 e" by simp
  from assms(1) p have "0 \<le> ?x" by simp
  then have "0 \<le> \<lfloor>?x\<rfloor>" by simp
  with round_half_even_ge_floor [of ?x] show "0 \<le> m" unfolding assms(3) by linarith
  have "ilog2 a + 1 \<le> e + 53" unfolding assms(2) by simp
  then have "pow2 (ilog2 a + 1) \<le> pow2 (e + 53)" by (rule pow2_mono)
  also have "\<dots> = pow2 e * 2 ^ 53" using pow2_add [of e 53] pow2_nat [of 53] by simp
  finally have "a < pow2 e * 2 ^ 53" using ilog2_bounds [OF assms(1)] by linarith
  with p have "?x < 2 ^ 53" by (simp add: field_simps)
  then have "\<lfloor>?x\<rfloor> < 2 ^ 53" by (simp add: floor_less_iff)
  with round_half_even_le_floor [of ?x] show "m \<le> 2 ^ 53" unfolding assms(3) by linarith
  have "of_int m * pow2 e - a = pow2 e * (of_int m - ?x)"
    using p by (simp add: field_simps)
  then have "\<bar>of_int m * pow2 e - a\<bar> = pow2 e * \<bar>of_int m - ?x\<bar>"
    using p by (simp add: abs_mult)
  also have "\<dots> \<le> pow2 e * (1 / 2)"
    using round_half_even_near [of ?x] p unfolding assms(3) by (intro mult_left_mono) simp_all
  finally show "\<bar>of_int m * pow2 e - a\<bar> \<le> pow2 e / 2" by simp
qed

lemma fl_nearest:
  assumes "fl q = Fin r"
  shows "\<exists>m e. r = of_int m * pow2 e \<and> \<bar>m\<bar> \<le> 2 ^ 53 \<and> - 1074 \<le> e \<and> \<bar>r\<bar> < 2 ^ 1024
           \<and> \<bar>r - q\<bar> \<le> pow2 e / 2
           \<and> (q \<noteq> 0 \<longrightarrow> e = max (ilog2 \<bar>q\<bar> - 52) (- 1074))"
proof (cases "q = 0")
  case True
  with assms have "r = 0" by (simp add: fl_def)
  with True have "r = of_int 0 * pow2 (- 1074) \<and> \<bar>0::int\<bar> \<le> 2 ^ 53 \<and> - 1074 \<le> (- 1074 :: int)
      \<and> \<bar>r\<bar> < 2 ^ 1024 \<and> \<bar>r - q\<bar> \<le> pow2 (- 1074) / 2
      \<and> (q \<noteq> 0 \<longrightarrow> - 1074 = max (ilog2 \<bar>q\<bar> - 52) (- 1074))"
    by simp
  then show ?thesis by blast
next
  case False
  then have a: "0 < \<bar>q\<bar>" by simp
  from False obtain m e where e: "e = max (ilog2 \<bar>q\<bar> - 52) (- 1074)"
    and m: "m = round_half_even (\<bar>q\<bar> / pow2 e)"
    and f: "fl q = (if 2 ^ 1024 \<le> of_int m * pow2 e then (if 0 < q then PInf else NInf)
                 else Fin (if 0 < q then of_int m * pow2 e else - (of_int m * pow2 e)))"
    by (rule fl_cases)
  note s = significand_bounds [OF a e m]
  from f assms have lt: "of_int m * pow2 e < 2 ^ 1024"
    and r: "r = (if 0 < q then of_int m * pow2 e else - (of_int m * pow2 e))"
    by (auto split: if_splits)
  have nn: "0 \<le> of_int m * pow2 e" using s(1) by simp
  have am: "\<bar>m\<bar> \<le> 2 ^ 53" "\<bar>- m\<bar> \<le> 2 ^ 53" using s(1,2) by simp_all
  have ar: "\<bar>r\<bar> < 2 ^ 1024"
  proof -
    have "\<bar>r\<bar> = of_int m * pow2 e" unfolding r using nn by simp
    with lt show ?thesis by (simp only:)
  qed
  have ee: "q \<noteq> 0 \<longrightarrow> e = max (ilog2 \<bar>q\<bar> - 52) (- 1074)" using e by simp
  have le: "- 1074 \<le> e" unfolding e by simp
  show ?thesis
  proof (cases "0 < q")
    case True
    then have "r = of_int m * pow2 e" using r by simp
    moreover from this True have "\<bar>r - q\<bar> \<le> pow2 e / 2" using s(3) by simp
    ultimately show ?thesis using am(1) ar ee le by blast
  next
    case neg: False
    with False have q: "q < 0" by simp
    then have rr: "r = of_int (- m) * pow2 e" using r by simp
    have "r - q = - (of_int m * pow2 e - \<bar>q\<bar>)" unfolding rr using q by simp
    then have "\<bar>r - q\<bar> = \<bar>of_int m * pow2 e - \<bar>q\<bar>\<bar>" by (simp only: abs_minus_cancel)
    with s(3) have "\<bar>r - q\<bar> \<le> pow2 e / 2" by (simp only:)
    with rr show ?thesis using am(2) ar ee le by blast
  qed
qed

lemma fl_of_nat_pos:
  assumes "0 < n"
  shows "fl (of_nat n) = PInf \<or> (\<exists>b. 0 < b \<and> fl (of_nat n) = Fin b)"
proof -
  let ?q = "rat_of_nat n"
  from assms have q: "1 \<le> ?q" "0 < ?q" "?q \<noteq> 0" "\<bar>?q\<bar> = ?q" by simp_all
  from q(3) obtain m e where e: "e = max (ilog2 \<bar>?q\<bar> - 52) (- 1074)"
    and m: "m = round_half_even (\<bar>?q\<bar> / pow2 e)"
    and f: "fl ?q = (if 2 ^ 1024 \<le> of_int m * pow2 e then (if 0 < ?q then PInf else NInf)
                 else Fin (if 0 < ?q then of_int m * pow2 e else - (of_int m * pow2 e)))"
    by (rule fl_cases)
  have "pow2 e \<le> ?q"
  proof (cases "ilog2 ?q - 52 \<le> - 1074")
    case True
    then have "e = - 1074" using e q(4) by simp
    then have "pow2 e \<le> 1" by (simp add: pow2_def)
    with q(1) show ?thesis by linarith
  next
    case False
    then have "e = ilog2 ?q - 52" using e q(4) by simp
    then have "pow2 e \<le> pow2 (ilog2 ?q)" by (simp add: pow2_mono)
    with ilog2_bounds_ge1(2) [OF q(1)] show ?thesis by linarith
  qed
  then have "1 \<le> ?q / pow2 e" by (simp add: field_simps)
  then have "1 \<le> \<lfloor>\<bar>?q\<bar> / pow2 e\<rfloor>" unfolding q(4) by (simp add: le_floor_iff)
  with round_half_even_ge_floor [of "\<bar>?q\<bar> / pow2 e"] have "1 \<le> m" unfolding m by linarith
  then have "0 < of_int m * pow2 e" by simp
  with f q(2) show ?thesis by auto
qed

lemma fl_of_nat_finite:
  assumes "0 < n" and "n < 2 ^ 63"
  shows "\<exists>b. 0 < b \<and> fl (of_nat n) = Fin b"
proof -
  let ?q = "rat_of_nat n"
  from assms(1) have q: "1 \<le> ?q" "0 < ?q" "?q \<noteq> 0" "\<bar>?q\<bar> = ?q" by simp_all
  from assms(2) have "rat_of_nat n < rat_of_nat (2 ^ 63)" by (simp only: of_nat_less_iff)
  then have lt: "?q < pow2 63" using pow2_nat [of 63] by simp
  have i: "ilog2 ?q \<le> 62"
  proof (rule ccontr)
    assume "\<not> ilog2 ?q \<le> 62"
    then have "63 \<le> ilog2 ?q" by simp
    then have "pow2 63 \<le> pow2 (ilog2 ?q)" by (rule pow2_mono)
    with ilog2_bounds_ge1(2) [OF q(1)] lt show False by linarith
  qed
  from q(3) obtain m e where e: "e = max (ilog2 \<bar>?q\<bar> - 52) (- 1074)"
    and m: "m = round_half_even (\<bar>?q\<bar> / pow2 e)"
    and f: "fl ?q = (if 2 ^ 1024 \<le> of_int m * pow2 e then (if 0 < ?q then PInf else NInf)
                 else Fin (if 0 < ?q then of_int m * pow2 e else - (of_int m * pow2 e)))"
    by (rule fl_cases)
  from q(2) have a: "0 < \<bar>?q\<bar>" by simp
  note s = significand_bounds [OF a e m]
  from i e q(4) have "e \<le> 10" by simp
  then have "pow2 e \<le> pow2 10" by (rule pow2_mono)
  then have p: "pow2 e \<le> 2 ^ 10" using pow2_nat [of 10] by simp
  from s(2) have "rat_of_int m \<le> rat_of_int (2 ^ 53)" by (simp only: of_int_le_iff)
  then have mm: "rat_of_int m \<le> 2 ^ 53" by simp
  have "of_int m * pow2 e \<le> 2 ^ 53 * 2 ^ 10"
    using mm p s(1) by (intro mult_mono) simp_all
  also have "\<dots> < (2::rat) ^ 1024" by simp
  finally have "\<not> 2 ^ 1024 \<le> of_int m * pow2 e" by simp
  with f have "fl ?q \<noteq> PInf" by simp
  with fl_of_nat_pos [OF assms(1)] show ?thesis by blast
qed

lemma truediv_len_in_range:
  assumes "0 < n" and "n < 2 ^ 63"
  shows "\<exists>b. 0 < b \<and> fl (of_nat n) = Fin b \<and> truediv_len s n = Inr (float_div_pos s b)"
proof -
  from fl_of_nat_finite [OF assms] obtain b where "0 < b" "fl (of_nat n) = Fin b" by blast
  with assms(1) show ?thesis by (simp add: truediv_len_def)
qed

subsection \<open>The error of a sum and of an average\<close>

text \<open>
  Rounding a non-negative number below \<open>2 ^ K\<close> moves it by at most \<open>2 ^ (K - 54)\<close>; a
  length below \<open>2 ^ 53\<close> converts exactly. So for at most \<open>2 ^ 30\<close> ratings within 0 and
  5 the float sum divided by the length is within \<open>2 ^ -20\<close> of the arithmetic mean, and
  the rounded average is the float nearest to a two-decimal number within 0.005 of that.
\<close>

lemma ilog2_less:
  assumes "0 < a" and "a < pow2 K"
  shows "ilog2 a < K"
proof (rule ccontr)
  assume "\<not> ilog2 a < K"
  then have "K \<le> ilog2 a" by simp
  then have "pow2 K \<le> pow2 (ilog2 a)" by (rule pow2_mono)
  with ilog2_bounds [OF assms(1)] assms(2) show False by linarith
qed

lemma fl_nonneg_error:
  assumes "0 \<le> x" and "x < pow2 K" and "0 \<le> K" and "K \<le> 1000"
  shows "\<exists>y. fl x = Fin y \<and> 0 \<le> y \<and> \<bar>y - x\<bar> \<le> pow2 (K - 54)"
proof (cases "x = 0")
  case True
  then show ?thesis by (simp add: fl_def)
next
  case False
  with assms(1) have x: "0 < x" "\<bar>x\<bar> = x" by simp_all
  from False obtain m e where e: "e = max (ilog2 \<bar>x\<bar> - 52) (- 1074)"
    and m: "m = round_half_even (\<bar>x\<bar> / pow2 e)"
    and f: "fl x = (if 2 ^ 1024 \<le> of_int m * pow2 e then (if 0 < x then PInf else NInf)
                 else Fin (if 0 < x then of_int m * pow2 e else - (of_int m * pow2 e)))"
    by (rule fl_cases)
  from x(1) have a: "0 < \<bar>x\<bar>" by simp
  note s = significand_bounds [OF a e m]
  from ilog2_less [OF x(1) assms(2)] have "ilog2 x < K" .
  with e x(2) assms(3) have "e \<le> K - 53" by linarith
  then have "pow2 e \<le> pow2 (K - 53)" by (rule pow2_mono)
  moreover have "pow2 (K - 53) = pow2 (K - 54) * 2" using pow2_add [of "K - 54" 1] by (simp add: pow2_def)
  ultimately have pe: "pow2 e / 2 \<le> pow2 (K - 54)" by simp
  from s(3) pe have err: "\<bar>of_int m * pow2 e - x\<bar> \<le> pow2 (K - 54)"
    unfolding x(2) by linarith
  have "pow2 (K - 54) \<le> pow2 K" by (rule pow2_mono) simp
  with err assms(2) have "of_int m * pow2 e < pow2 K + pow2 K" by linarith
  also have "\<dots> = pow2 (K + 1)" using pow2_add [of K 1] by (simp add: pow2_def)
  also have "\<dots> \<le> pow2 1024" using assms(4) by (intro pow2_mono) simp
  also have "\<dots> = 2 ^ 1024" using pow2_nat [of 1024] by simp
  finally have "\<not> 2 ^ 1024 \<le> of_int m * pow2 e" by simp
  with f x(1) have "fl x = Fin (of_int m * pow2 e)" by simp
  moreover have "0 \<le> of_int m * pow2 e" using s(1) by simp
  ultimately show ?thesis using err by blast
qed

lemma round_half_even_of_int [simp]: "round_half_even (of_int z) = z"
  by (simp add: round_half_even_def)

lemma fl_of_nat_exact:
  assumes "n < 2 ^ 53"
  shows "fl (of_nat n) = Fin (of_nat n)"
proof (cases "n = 0")
  case True
  then show ?thesis by (simp add: fl_def)
next
  case False
  let ?q = "rat_of_nat n"
  from False have q: "1 \<le> ?q" "0 < ?q" "?q \<noteq> 0" "\<bar>?q\<bar> = ?q" by simp_all
  from assms have "rat_of_nat n < rat_of_nat (2 ^ 53)" by (simp only: of_nat_less_iff)
  then have "?q < pow2 53" using pow2_nat [of 53] by simp
  from ilog2_less [OF q(2) this] ilog2_bounds_ge1(1) [OF q(1)]
  have i: "0 \<le> ilog2 ?q" "ilog2 ?q \<le> 52" by simp_all
  define d where "d = nat (52 - ilog2 ?q)"
  from q(3) obtain m e where e: "e = max (ilog2 \<bar>?q\<bar> - 52) (- 1074)"
    and m: "m = round_half_even (\<bar>?q\<bar> / pow2 e)"
    and f: "fl ?q = (if 2 ^ 1024 \<le> of_int m * pow2 e then (if 0 < ?q then PInf else NInf)
                 else Fin (if 0 < ?q then of_int m * pow2 e else - (of_int m * pow2 e)))"
    by (rule fl_cases)
  from e i q(4) have ed: "e = - int d" unfolding d_def by simp
  have p: "pow2 e = 1 / 2 ^ d" unfolding ed by (rule pow2_neg_nat)
  have "\<bar>?q\<bar> / pow2 e = rat_of_int (int n * 2 ^ d)" unfolding p q(4) by simp
  then have "m = int n * 2 ^ d" unfolding m by (simp only: round_half_even_of_int)
  then have r: "of_int m * pow2 e = ?q" unfolding p by simp
  have "?q < 2 ^ 1024"
  proof -
    from assms have "n < 2 ^ 1024" by (rule less_trans) simp
    then have "rat_of_nat n < rat_of_nat (2 ^ 1024)" by (simp only: of_nat_less_iff)
    then show ?thesis by simp
  qed
  with f r q(2) show ?thesis by simp
qed

lemma sum_from_error:
  assumes "\<forall>q \<in> set qs. 0 \<le> q \<and> q \<le> 5"
    and "0 \<le> acc" and "\<bar>acc - A\<bar> \<le> of_nat j * pow2 (- 21)"
    and "0 \<le> A" and "A \<le> 5 * of_nat j" and "j + length qs \<le> 2 ^ 30"
  shows "\<exists>s. sum_from (Fin acc) (map (\<lambda>q. PFloat (Fin q)) qs) = Inr (Fin s) \<and> 0 \<le> s
           \<and> \<bar>s - (A + sum_list qs)\<bar> \<le> of_nat (j + length qs) * pow2 (- 21)"
  using assms
proof (induction qs arbitrary: acc A j)
  case Nil
  then show ?case by simp
next
  case (Cons q qs)
  have eps: "pow2 (- 21) = 1 / 2097152" by (simp add: pow2_def)
  from Cons.prems(1) have q: "0 \<le> q" "q \<le> 5" by simp_all
  from Cons.prems(6) have "Suc j \<le> 2 ^ 30" by simp
  then have "rat_of_nat (Suc j) \<le> rat_of_nat (2 ^ 30)" by (simp only: of_nat_le_iff)
  then have j: "rat_of_nat j + 1 \<le> 1073741824" by simp
  have x0: "0 \<le> acc + q" using Cons.prems(2) q(1) by simp
  have "acc \<le> A + of_nat j * pow2 (- 21)" using Cons.prems(3) by linarith
  then have "acc + q \<le> 5 * of_nat j + of_nat j * (1 / 2097152) + 5"
    using Cons.prems(5) q(2) unfolding eps by linarith
  also have "\<dots> < 8589934592" using j by linarith
  also have "\<dots> = pow2 33" by (simp add: pow2_def)
  finally have x1: "acc + q < pow2 33" .
  from fl_nonneg_error [OF x0 x1] obtain y
    where y: "fl (acc + q) = Fin y" "0 \<le> y" "\<bar>y - (acc + q)\<bar> \<le> pow2 (- 21)" by auto
  have e1: "\<bar>y - (A + q)\<bar> \<le> of_nat (Suc j) * pow2 (- 21)"
    using y(3) Cons.prems(3) by (simp add: algebra_simps)
  have a1: "0 \<le> A + q" "A + q \<le> 5 * of_nat (Suc j)"
    using Cons.prems(4,5) q by simp_all
  have l1: "Suc j + length qs \<le> 2 ^ 30" using Cons.prems(6) by simp
  have r1: "\<forall>q \<in> set qs. 0 \<le> q \<and> q \<le> 5" using Cons.prems(1) by simp
  from Cons.IH [OF r1 y(2) e1 a1 l1] y(1) show ?case
    by (simp add: add.assoc)
qed

lemma rating_in_range_iff:
  "rating_in_range v \<longleftrightarrow> (\<exists>q. v = PFloat (Fin q) \<and> 0 \<le> q \<and> q \<le> 5)"
  by (cases v rule: rating_in_range.cases) simp_all

lemma ratings_as_values:
  "list_all rating_in_range rs \<Longrightarrow> rs = map (\<lambda>q. PFloat (Fin q)) (map rating_value rs)"
  by (induction rs) (auto simp: rating_in_range_iff)

lemma values_in_range:
  "list_all rating_in_range rs \<Longrightarrow> \<forall>q \<in> set (map rating_value rs). 0 \<le> q \<and> q \<le> 5"
  by (induction rs) (auto simp: rating_in_range_iff)

lemma rounded_average_accuracy:
  assumes "list_all rating_in_range rs" and "rs \<noteq> []" and "length rs \<le> 2 ^ 30"
  shows "\<exists>k. rounded_average rs = Inr (fl (of_int k / 100))
           \<and> \<bar>of_int k / 100 - exact_mean rs\<bar> \<le> 1 / 200 + 1 / 10 ^ 6"
proof -
  let ?qs = "map rating_value rs"
  let ?n = "length rs"
  let ?S = "sum_list ?qs"
  have eps: "pow2 (- 21) = 1 / 2097152" and eps2: "pow2 (- 51) = 1 / 2251799813685248"
    by (simp_all add: pow2_def)
  have n0: "0 < rat_of_nat ?n" using assms(2) by simp
  have rs: "rs = map (\<lambda>q. PFloat (Fin q)) ?qs" using assms(1) by (rule ratings_as_values)
  have "\<exists>s. sum_from (Fin 0) (map (\<lambda>q. PFloat (Fin q)) ?qs) = Inr (Fin s) \<and> 0 \<le> s
          \<and> \<bar>s - (0 + ?S)\<bar> \<le> of_nat (0 + length ?qs) * pow2 (- 21)"
    by (rule sum_from_error) (use values_in_range [OF assms(1)] assms(3) in simp_all)
  then obtain s where s: "py_sum rs = Inr (Fin s)" "0 \<le> s"
    "\<bar>s - ?S\<bar> \<le> of_nat ?n * (1 / 2097152)"
    unfolding py_sum_def eps using rs by auto
  have S5: "?S \<le> 5 * of_nat ?n"
    using values_in_range [OF assms(1)] by (induction rs) (auto simp: algebra_simps)
  have "?n < 2 ^ 53" using assms(3) by (rule le_less_trans) simp
  from fl_of_nat_exact [OF this] assms(2)
  have d: "truediv_len (Fin s) ?n = Inr (fl (s / of_nat ?n))"
    by (simp add: truediv_len_def)
  have m1: "\<bar>s / of_nat ?n - exact_mean rs\<bar> \<le> 1 / 2097152"
  proof -
    have "s / of_nat ?n - exact_mean rs = (s - ?S) / of_nat ?n"
      by (simp add: exact_mean_def diff_divide_distrib)
    then have "\<bar>s / of_nat ?n - exact_mean rs\<bar> = \<bar>s - ?S\<bar> / of_nat ?n"
      using n0 by simp
    also have "\<dots> \<le> (of_nat ?n * (1 / 2097152)) / of_nat ?n"
      using s(3) n0 by (intro divide_right_mono) simp_all
    also have "\<dots> = 1 / 2097152" using n0 by simp
    finally show ?thesis .
  qed
  have x0: "0 \<le> s / of_nat ?n" using s(2) by simp
  have "s \<le> 5 * of_nat ?n + of_nat ?n * (1 / 2097152)" using s(3) S5 by linarith
  also have "\<dots> = of_nat ?n * (5 + 1 / 2097152)" by (simp add: algebra_simps)
  finally have "s / of_nat ?n \<le> 5 + 1 / 2097152"
    using n0 by (simp add: pos_divide_le_eq mult.commute)
  also have "\<dots> < pow2 3" by (simp add: pow2_def)
  finally have x1: "s / of_nat ?n < pow2 3" .
  from fl_nonneg_error [OF x0 x1] obtain a
    where a: "fl (s / of_nat ?n) = Fin a" "\<bar>a - s / of_nat ?n\<bar> \<le> 1 / 2251799813685248"
    using eps2 by auto
  define k where "k = round_half_even (a * 100)"
  have r: "rounded_average rs = Inr (fl (of_int k / 100))"
    by (simp add: rounded_average_def s(1) d a(1) k_def)
  have "\<bar>of_int k - a * 100\<bar> \<le> 1 / 2" unfolding k_def by (rule round_half_even_near)
  then have "\<bar>of_int k / 100 - a\<bar> \<le> 1 / 200" by (simp add: abs_if split: if_splits)
  with a(2) m1 have "\<bar>of_int k / 100 - exact_mean rs\<bar> \<le> 1 / 200 + 1 / 10 ^ 6"
    by (simp add: abs_if split: if_splits)
  with r show ?thesis by blast
qed

section \<open>The aggregator on records\<close>

subsection \<open>Grouping\<close>

lemma first_seen_Nil [simp]: "first_seen [] = []"
  by (simp add: first_seen_def)

lemma first_seen_snoc:
  "first_seen (xs @ [x]) = (if x \<in> set xs then first_seen xs else first_seen xs @ [x])"
  by (simp add: first_seen_def)

lemma set_first_seen [simp]: "set (first_seen xs) = set xs"
  by (simp add: first_seen_def)

lemma distinct_first_seen [simp]: "distinct (first_seen xs)"
  by (simp add: first_seen_def)

lemma dict_append_present:
  "distinct ks \<Longrightarrow> b \<in> set ks \<Longrightarrow>
   dict_append b r (map (\<lambda>k. (k, f k)) ks) = map (\<lambda>k. (k, if k = b then f k @ [r] else f k)) ks"
  by (induction ks) auto

lemma dict_append_absent:
  "b \<notin> set ks \<Longrightarrow> dict_append b r (map (\<lambda>k. (k, f k)) ks) = map (\<lambda>k. (k, f k)) ks @ [(b, [r])]"
  by (induction ks) auto

lemma dict_append_grouped: "dict_append b r (grouped ps) = grouped (ps @ [(b, r)])"
proof (cases "b \<in> set (map fst ps)")
  case True
  then show ?thesis
    unfolding grouped_def
    by (subst dict_append_present) (auto simp: first_seen_snoc)
next
  case False
  then have "filter (\<lambda>p. fst p = b) ps = []"
    by (auto simp: filter_empty_conv)
  with False show ?thesis
    unfolding grouped_def
    by (subst dict_append_absent) (auto simp: first_seen_snoc)
qed

lemma group_rows_grouped:
  "group_rows data (grouped ps) n =
     (grouped (ps @ pairs_of data), n + length (filter (\<lambda>row. isl (brand_rating_pair row)) data))"
proof (induction data arbitrary: ps n)
  case Nil
  then show ?case by (simp add: pairs_of_def)
next
  case (Cons row data)
  show ?case
  proof (cases "brand_rating_pair row")
    case (Inl e)
    then show ?thesis using Cons.IH [of ps "n + 1"] by (simp add: pairs_of_def)
  next
    case (Inr p)
    obtain b r where p: "p = (b, r)" by (cases p)
    show ?thesis
      using Cons.IH [of "ps @ [(b, r)]" n] Inr p
      by (simp add: pairs_of_def dict_append_grouped)
  qed
qed

lemma grouped_Nil [simp]: "grouped [] = []"
  by (simp add: grouped_def)

lemma group_rows_start:
  "group_rows data [] 0 =
     (grouped (pairs_of data), length (filter (\<lambda>row. isl (brand_rating_pair row)) data))"
  using group_rows_grouped [of data "[]" 0] by simp

subsection \<open>Averages\<close>

lemma fl_not_NaN [simp]: "fl q \<noteq> NaN"
  by (simp add: fl_def Let_def)

lemma float_add_Fin_not_NaN: "x \<noteq> NaN \<Longrightarrow> float_add x (Fin b) \<noteq> NaN"
  by (cases x) simp_all

lemma float_div_pos_not_NaN: "x \<noteq> NaN \<Longrightarrow> float_div_pos x b \<noteq> NaN"
  by (cases x) simp_all

lemma py_round2_not_NaN: "x \<noteq> NaN \<Longrightarrow> py_round2 x \<noteq> NaN"
  by (cases x) simp_all

lemma is_finite_float_iff: "is_finite_float v \<longleftrightarrow> (\<exists>q. v = PFloat (Fin q))"
  by (cases v rule: is_finite_float.cases) simp_all

lemma is_str_iff: "is_str v \<longleftrightarrow> (\<exists>s. v = PStr s)"
  by (cases v) simp_all

lemma sum_from_finite:
  "list_all is_finite_float rs \<Longrightarrow> acc \<noteq> NaN \<Longrightarrow> \<exists>s. sum_from acc rs = Inr s \<and> s \<noteq> NaN"
proof (induction rs arbitrary: acc)
  case Nil
  then show ?case by simp
next
  case (Cons r rs)
  then obtain q where r: "r = PFloat (Fin q)" by (auto simp: is_finite_float_iff)
  from Cons.prems have "float_add acc (Fin q) \<noteq> NaN" by (simp add: float_add_Fin_not_NaN)
  with Cons.IH [of "float_add acc (Fin q)"] Cons.prems r show ?case by simp
qed

lemma truediv_len_not_NaN:
  "n \<noteq> 0 \<Longrightarrow> s \<noteq> NaN \<Longrightarrow> \<exists>a. truediv_len s n = Inr a \<and> a \<noteq> NaN"
  by (cases "fl (of_nat n)") (simp_all add: truediv_len_def float_div_pos_not_NaN)

lemma rounded_average_finite:
  assumes "list_all is_finite_float rs" and "rs \<noteq> []"
  shows "\<exists>a. rounded_average rs = Inr a \<and> a \<noteq> NaN"
proof -
  from sum_from_finite [OF assms(1), of "Fin 0"]
  obtain s where s: "py_sum rs = Inr s" "s \<noteq> NaN" by (auto simp: py_sum_def)
  from truediv_len_not_NaN [of "length rs" s] assms(2) s
  obtain a where a: "truediv_len s (length rs) = Inr a" "a \<noteq> NaN" by auto
  with s show ?thesis by (simp add: rounded_average_def py_round2_not_NaN)
qed

lemma build_report_ok:
  "\<forall>(b, rs) \<in> set g. \<exists>a. rounded_average rs = Inr a \<Longrightarrow>
   build_report g =
     Inr (map (\<lambda>(b, rs). \<lparr>brand = b, average_rating = projr (rounded_average rs)\<rparr>) g)"
  by (induction g) auto

subsection \<open>The sort\<close>

lemma set_insert_desc [simp]: "set (insert_desc x ys) = insert x (set ys)"
  by (induction ys) auto

lemma set_sorted_desc [simp]: "set (sorted_desc xs) = set xs"
  by (induction xs) auto

lemma length_insert_desc [simp]: "length (insert_desc x ys) = Suc (length ys)"
  by (induction ys) auto

lemma length_sorted_desc [simp]: "length (sorted_desc xs) = length xs"
  by (induction xs) auto

lemma distinct_map_insert_desc:
  "distinct (map f (insert_desc x ys)) = distinct (map f (x # ys))"
  by (induction ys) auto

lemma distinct_map_sorted_desc: "distinct (map f (sorted_desc xs)) = distinct (map f xs)"
  by (induction xs) (auto simp: distinct_map_insert_desc)

lemma float_le_total: "x \<noteq> NaN \<Longrightarrow> y \<noteq> NaN \<Longrightarrow> \<not> float_lt x y \<Longrightarrow> float_le y x"
  by (cases x; cases y) simp_all

lemma float_lt_imp_le: "float_lt x y \<Longrightarrow> float_le x y"
  by (cases x; cases y) simp_all

lemma float_le_trans: "float_le x y \<Longrightarrow> float_le y z \<Longrightarrow> float_le x z"
  by (cases x; cases y; cases z) simp_all

lemma float_lt_irrefl [simp]: "\<not> float_lt x x"
  by (cases x) simp_all

lemma sorted_insert_desc:
  assumes "sorted_wrt (\<lambda>x y. float_le (average_rating y) (average_rating x)) ys"
    and "\<forall>z \<in> set (x # ys). average_rating z \<noteq> NaN"
  shows "sorted_wrt (\<lambda>x y. float_le (average_rating y) (average_rating x)) (insert_desc x ys)"
  using assms
proof (induction ys)
  case Nil
  then show ?case by simp
next
  case (Cons y ys)
  show ?case
  proof (cases "float_lt (average_rating x) (average_rating y)")
    case True
    with Cons show ?thesis by (auto simp: float_lt_imp_le)
  next
    case False
    with Cons.prems have xy: "float_le (average_rating y) (average_rating x)"
      by (simp add: float_le_total)
    with Cons.prems have "\<forall>z \<in> set ys. float_le (average_rating z) (average_rating x)"
      by (auto intro: float_le_trans)
    with False xy Cons.prems show ?thesis by simp
  qed
qed

lemma sorted_sorted_desc:
  "\<forall>z \<in> set xs. average_rating z \<noteq> NaN \<Longrightarrow>
   sorted_wrt (\<lambda>x y. float_le (average_rating y) (average_rating x)) (sorted_desc xs)"
  by (induction xs) (auto intro!: sorted_insert_desc)

lemma stable_insert_desc:
  assumes "sorted_wrt (\<lambda>x y. average_rating x = average_rating y \<longrightarrow> P x y) ys"
    and "\<forall>y \<in> set ys. P x y"
  shows "sorted_wrt (\<lambda>x y. average_rating x = average_rating y \<longrightarrow> P x y) (insert_desc x ys)"
  using assms by (induction ys) auto

lemma stable_sorted_desc:
  "sorted_wrt P xs \<Longrightarrow>
   sorted_wrt (\<lambda>x y. average_rating x = average_rating y \<longrightarrow> P x y) (sorted_desc xs)"
  by (induction xs) (auto intro!: stable_insert_desc)

subsection \<open>First appearance\<close>

lemma first_index_append_in: "a \<in> set xs \<Longrightarrow> first_index a (xs @ ys) = first_index a xs"
  by (induction xs) (auto simp: first_index_def)

lemma first_index_less: "a \<in> set xs \<Longrightarrow> first_index a xs < length xs"
  by (induction xs) (auto simp: first_index_def)

lemma first_index_notin: "a \<notin> set xs \<Longrightarrow> first_index a (xs @ a # ys) = length xs"
  by (induction xs) (auto simp: first_index_def)

lemma first_seen_ordered:
  "sorted_wrt (\<lambda>a b. first_index a xs < first_index b xs) (first_seen xs)"
proof (induction xs rule: rev_induct)
  case Nil
  then show ?case by simp
next
  case (snoc x xs)
  have keep: "sorted_wrt (\<lambda>a b. first_index a (xs @ [x]) < first_index b (xs @ [x])) (first_seen xs)"
    by (rule sorted_wrt_mono_rel [OF _ snoc.IH]) (simp add: first_index_append_in)
  show ?case
  proof (cases "x \<in> set xs")
    case True
    with keep show ?thesis by (simp add: first_seen_snoc)
  next
    case False
    with keep show ?thesis
      by (auto simp: first_seen_snoc sorted_wrt_append first_index_append_in
          first_index_notin first_index_less)
  qed
qed

subsection \<open>The report\<close>

lemma record_pair:
  "record_row row \<Longrightarrow> brand_rating_pair row = Inr (brand_of row, rating_of row)"
  by (auto simp: record_row_def brand_of_def rating_of_def py_get_def brand_rating_pair_def
      is_str_iff is_finite_float_iff split: option.splits)

lemma pairs_of_records:
  "list_all record_row data \<Longrightarrow> pairs_of data = map (\<lambda>row. (brand_of row, rating_of row)) data"
  by (induction data) (simp_all add: pairs_of_def record_pair)

lemma skipped_records:
  "list_all record_row data \<Longrightarrow> filter (\<lambda>row. isl (brand_rating_pair row)) data = []"
  by (induction data) (simp_all add: record_pair)

lemma grouped_records:
  "grouped (map (\<lambda>row. (brand_of row, rating_of row)) data) =
     map (\<lambda>b. (b, ratings_of b data)) (first_seen (map brand_of data))"
  by (simp add: grouped_def ratings_of_def filter_map comp_def)

lemma ratings_of_records:
  assumes "list_all record_row data" and "b \<in> set (map brand_of data)"
  shows "list_all is_finite_float (ratings_of b data)" and "ratings_of b data \<noteq> []"
  using assms by (auto simp: ratings_of_def list_all_iff record_row_def filter_empty_conv)

lemma average_of_records:
  assumes "list_all record_row data" and "b \<in> set (map brand_of data)"
  shows "\<exists>a. rounded_average (ratings_of b data) = Inr a \<and> a \<noteq> NaN"
  using ratings_of_records [OF assms] by (rule rounded_average_finite)

lemma aggregate_records:
  assumes "list_all record_row data"
  shows "calculate_average_rating data =
           (if data = [] then print ErrNoRatingData else [],
            Inr (sorted_desc (report_in_first_seen_order data)))"
proof -
  have g: "group_rows data [] 0 =
             (map (\<lambda>b. (b, ratings_of b data)) (first_seen (map brand_of data)), 0)"
    using assms
    by (simp add: group_rows_start pairs_of_records skipped_records grouped_records)
  have ok: "\<forall>(b, rs) \<in> set (map (\<lambda>b. (b, ratings_of b data)) (first_seen (map brand_of data))).
              \<exists>a. rounded_average rs = Inr a"
    using average_of_records [OF assms] by auto
  have e: "first_seen (map brand_of data) = [] \<longleftrightarrow> data = []"
    by (metis set_first_seen set_empty map_is_Nil_conv)
  show ?thesis
    unfolding calculate_average_rating_def g
    by (simp add: e build_report_ok [OF ok] report_in_first_seen_order_def comp_def)
qed

lemma report_in_first_seen_order_brands:
  "map brand (report_in_first_seen_order data) = first_seen (map brand_of data)"
  by (simp add: report_in_first_seen_order_def comp_def)

lemma report_in_first_seen_order_averages:
  assumes "list_all record_row data" and "r \<in> set (report_in_first_seen_order data)"
  shows "rounded_average (ratings_of (brand r) data) = Inr (average_rating r)"
    and "average_rating r \<noteq> NaN"
proof -
  from assms(2) obtain b where b: "b \<in> set (map brand_of data)"
    and r: "r = \<lparr>brand = b, average_rating = projr (rounded_average (ratings_of b data))\<rparr>"
    by (auto simp: report_in_first_seen_order_def)
  from average_of_records [OF assms(1) b] obtain a
    where "rounded_average (ratings_of b data) = Inr a" "a \<noteq> NaN" by auto
  with r show "rounded_average (ratings_of (brand r) data) = Inr (average_rating r)"
    and "average_rating r \<noteq> NaN" by simp_all
qed

lemma ratings_of_in_range:
  "ratings_in_range data \<Longrightarrow> list_all rating_in_range (ratings_of b data)"
  by (auto simp: ratings_in_range_def ratings_of_def list_all_iff)

lemma length_ratings_of: "length (ratings_of b data) \<le> length data"
  by (simp add: ratings_of_def)

text \<open>
  C1 does not hold as an equation with the exactly rounded mean. For the ratings 0.5 and
  0.24999999999999997 of one brand the arithmetic mean is \<open>3/8 - 2 ^ -56\<close>, whose only
  two-decimal neighbour within 0.005 is 0.37; the float sum is 0.75 (the exact sum is
  not a float), half of it is the tie 0.375, and the code reports 0.38.
\<close>

theorem exact_mean_rounds_differently_counterexample:
  "calculate_average_rating
     [[PStr ''brand'' \<mapsto> PStr ''acme'', PStr ''rating'' \<mapsto> PFloat (Fin (1 / 2))],
      [PStr ''brand'' \<mapsto> PStr ''acme'',
       PStr ''rating'' \<mapsto> PFloat (Fin (9007199254740991 / 36028797018963968))]]
   = ([], Inr [\<lparr>brand = PStr ''acme'', average_rating = fl (38 / 100)\<rparr>])
   \<and> py_float ''0.24999999999999997'' = Inr (Fin (9007199254740991 / 36028797018963968))
   \<and> exact_mean [PFloat (Fin (1 / 2)), PFloat (Fin (9007199254740991 / 36028797018963968))]
       = 3 / 8 - 1 / 2 ^ 56
   \<and> \<bar>37 / 100 - (3 / 8 - 1 / 2 ^ 56 :: rat)\<bar> < 1 / 200
   \<and> 1 / 200 < \<bar>38 / 100 - (3 / 8 - 1 / 2 ^ 56 :: rat)\<bar>
   \<and> fl (38 / 100) \<noteq> fl (37 / 100)"
  by (simp add: aggregate_eval float_eval fl_eval exact_mean_def)

text \<open>
  C1, as the program has it. For every sequence of records the aggregator returns a report
  with exactly one row for each distinct brand (brands are compared as strings, so case
  matters), in descending order of the averages. The average of a row is what binary64
  gives for the sum of the ratings of its brand, in input order, divided by their number
  and rounded to two decimals. For at most \<open>2 ^ 30\<close> records with ratings within 0 and 5
  that is the float nearest to a two-decimal number \<open>k/100\<close> which differs from the
  arithmetic mean of those ratings by at most 0.005 + 0.000001. The input apple 4.7,
  apple 4.9, samsung 4.5 gives apple 4.8, samsung 4.5.
\<close>

theorem aggregator_report_within_rounding:
  assumes "list_all record_row data"
  shows "(\<exists>report. snd (calculate_average_rating data) = Inr report
           \<and> distinct (map brand report)
           \<and> set (map brand report) = set (map brand_of data)
           \<and> (\<forall>r \<in> set report.
                 rounded_average (ratings_of (brand r) data) = Inr (average_rating r))
           \<and> (ratings_in_range data \<and> length data \<le> 2 ^ 30 \<longrightarrow>
                (\<forall>r \<in> set report. \<exists>k.
                   average_rating r = fl (of_int k / 100)
                   \<and> \<bar>of_int k / 100 - exact_mean (ratings_of (brand r) data)\<bar>
                       \<le> 1 / 200 + 1 / 10 ^ 6))
           \<and> sorted_wrt (\<lambda>x y. float_le (average_rating y) (average_rating x)) report)
       \<and> calculate_average_rating
           [[PStr ''brand'' \<mapsto> PStr ''apple'', PStr ''rating'' \<mapsto> PFloat (fl (47 / 10))],
            [PStr ''brand'' \<mapsto> PStr ''apple'', PStr ''rating'' \<mapsto> PFloat (fl (49 / 10))],
            [PStr ''brand'' \<mapsto> PStr ''samsung'', PStr ''rating'' \<mapsto> PFloat (fl (45 / 10))]]
         = ([], Inr [\<lparr>brand = PStr ''apple'', average_rating = fl (48 / 10)\<rparr>,
                     \<lparr>brand = PStr ''samsung'', average_rating = fl (45 / 10)\<rparr>])"
proof (intro conjI exI)
  let ?rep = "sorted_desc (report_in_first_seen_order data)"
  show "snd (calculate_average_rating data) = Inr ?rep"
    by (simp add: aggregate_records [OF assms])
  have "distinct (map brand (report_in_first_seen_order data))"
    by (simp add: report_in_first_seen_order_brands)
  then show "distinct (map brand ?rep)"
    by (simp add: distinct_map_sorted_desc)
  have b: "set (map brand ?rep) = set (map brand (report_in_first_seen_order data))"
    by simp
  then show bs: "set (map brand ?rep) = set (map brand_of data)"
    by (simp only: report_in_first_seen_order_brands set_first_seen)
  show av: "\<forall>r \<in> set ?rep. rounded_average (ratings_of (brand r) data) = Inr (average_rating r)"
    using report_in_first_seen_order_averages(1) [OF assms] by simp
  show "ratings_in_range data \<and> length data \<le> 2 ^ 30 \<longrightarrow>
          (\<forall>r \<in> set ?rep. \<exists>k.
             average_rating r = fl (of_int k / 100)
             \<and> \<bar>of_int k / 100 - exact_mean (ratings_of (brand r) data)\<bar> \<le> 1 / 200 + 1 / 10 ^ 6)"
  proof (intro impI ballI)
    fix r
    assume h: "ratings_in_range data \<and> length data \<le> 2 ^ 30" and r: "r \<in> set ?rep"
    from r bs have "brand r \<in> set (map brand_of data)" by auto
    from ratings_of_records(2) [OF assms this] have ne: "ratings_of (brand r) data \<noteq> []" .
    from h have ir: "list_all rating_in_range (ratings_of (brand r) data)"
      by (simp add: ratings_of_in_range)
    from h length_ratings_of [of "brand r" data]
    have le: "length (ratings_of (brand r) data) \<le> 2 ^ 30" by linarith
    from rounded_average_accuracy [OF ir ne le] av r
    show "\<exists>k. average_rating r = fl (of_int k / 100)
            \<and> \<bar>of_int k / 100 - exact_mean (ratings_of (brand r) data)\<bar> \<le> 1 / 200 + 1 / 10 ^ 6"
      by auto
  qed
  show "sorted_wrt (\<lambda>x y. float_le (average_rating y) (average_rating x)) ?rep"
    using report_in_first_seen_order_averages(2) [OF assms] by (intro sorted_sorted_desc) simp
  show "calculate_average_rating
           [[PStr ''brand'' \<mapsto> PStr ''apple'', PStr ''rating'' \<mapsto> PFloat (fl (47 / 10))],
            [PStr ''brand'' \<mapsto> PStr ''apple'', PStr ''rating'' \<mapsto> PFloat (fl (49 / 10))],
            [PStr ''brand'' \<mapsto> PStr ''samsung'', PStr ''rating'' \<mapsto> PFloat (fl (45 / 10))]]
         = ([], Inr [\<lparr>brand = PStr ''apple'', average_rating = fl (48 / 10)\<rparr>,
                     \<lparr>brand = PStr ''samsung'', average_rating = fl (45 / 10)\<rparr>])"
    by (simp add: aggregate_eval fl_eval)
qed

theorem aggregator_report_within_rounding_witness:
  "list_all record_row
     [[PStr ''name'' \<mapsto> PStr ''poco'', PStr ''brand'' \<mapsto> PStr ''xiaomi'',
       PStr ''rating'' \<mapsto> PFloat (Fin 4)],
      [PStr ''brand'' \<mapsto> PStr ''apple'', PStr ''rating'' \<mapsto> PFloat (Fin 5)]]
   \<and> ratings_in_range
     [[PStr ''name'' \<mapsto> PStr ''poco'', PStr ''brand'' \<mapsto> PStr ''xiaomi'',
       PStr ''rating'' \<mapsto> PFloat (Fin 4)],
      [PStr ''brand'' \<mapsto> PStr ''apple'', PStr ''rating'' \<mapsto> PFloat (Fin 5)]]
   \<and> (\<exists>report.
         snd (calculate_average_rating
           [[PStr ''name'' \<mapsto> PStr ''poco'', PStr ''brand'' \<mapsto> PStr ''xiaomi'',
             PStr ''rating'' \<mapsto> PFloat (Fin 4)],
            [PStr ''brand'' \<mapsto> PStr ''apple'', PStr ''rating'' \<mapsto> PFloat (Fin 5)]])
         = Inr report
       \<and> distinct (map brand report)
       \<and> set (map brand report) = {PStr ''xiaomi'', PStr ''apple''}
       \<and> (\<forall>r \<in> set report. \<exists>k.
             average_rating r = fl (of_int k / 100)
             \<and> \<bar>of_int k / 100
                  - exact_mean (ratings_of (brand r)
                      [[PStr ''name'' \<mapsto> PStr ''poco'', PStr ''brand'' \<mapsto> PStr ''xiaomi'',
                        PStr ''rating'' \<mapsto> PFloat (Fin 4)],
                       [PStr ''brand'' \<mapsto> PStr ''apple'', PStr ''rating'' \<mapsto> PFloat (Fin 5)]])\<bar>
                 \<le> 1 / 200 + 1 / 10 ^ 6)
       \<and> sorted_wrt (\<lambda>x y. float_le (average_rating y) (average_rating x)) report)"
proof -
  let ?data = "[[PStr ''name'' \<mapsto> PStr ''poco'', PStr ''brand'' \<mapsto> PStr ''xiaomi'',
                 PStr ''rating'' \<mapsto> PFloat (Fin 4)],
                [PStr ''brand'' \<mapsto> PStr ''apple'', PStr ''rating'' \<mapsto> PFloat (Fin 5)]]"
  have h: "list_all record_row ?data"
    by (simp add: record_eval)
  have g: "ratings_in_range ?data"
    by (simp add: ratings_in_range_def record_eval)
  have l: "length ?data \<le> 2 ^ 30"
    by simp
  have b: "set (map brand_of ?data) = {PStr ''xiaomi'', PStr ''apple''}"
    by (simp add: record_eval)
  from aggregator_report_within_rounding [OF h] obtain report
    where 1: "snd (calculate_average_rating ?data) = Inr report"
      and 2: "distinct (map brand report)"
      and 3: "set (map brand report) = set (map brand_of ?data)"
      and 4: "ratings_in_range ?data \<and> length ?data \<le> 2 ^ 30 \<longrightarrow>
                (\<forall>r \<in> set report. \<exists>k.
                   average_rating r = fl (of_int k / 100)
                   \<and> \<bar>of_int k / 100 - exact_mean (ratings_of (brand r) ?data)\<bar>
                       \<le> 1 / 200 + 1 / 10 ^ 6)"
      and 5: "sorted_wrt (\<lambda>x y. float_le (average_rating y) (average_rating x)) report"
    by blast
  from 4 g l have 6: "\<forall>r \<in> set report. \<exists>k.
                   average_rating r = fl (of_int k / 100)
                   \<and> \<bar>of_int k / 100 - exact_mean (ratings_of (brand r) ?data)\<bar>
                       \<le> 1 / 200 + 1 / 10 ^ 6"
    by blast
  from 3 b have 7: "set (map brand report) = {PStr ''xiaomi'', PStr ''apple''}"
    by (simp only:)
  from h g 1 2 7 6 5 show ?thesis
    by (intro conjI exI [of _ report])
qed

text \<open>
  C5. For every sequence of records, if two rows of the report have equal averages, the
  row that comes first in the report is the one whose brand appears first in the input.
\<close>

theorem equal_averages_keep_first_appearance_order:
  assumes "list_all record_row data"
    and "snd (calculate_average_rating data) = Inr report"
    and "i < j" and "j < length report"
    and "average_rating (report ! i) = average_rating (report ! j)"
  shows "first_index (brand (report ! i)) (map brand_of data)
           < first_index (brand (report ! j)) (map brand_of data)"
proof -
  let ?P = "\<lambda>x y. first_index (brand x) (map brand_of data)
                   < first_index (brand y) (map brand_of data)"
  have "sorted_wrt (\<lambda>a b. first_index a (map brand_of data) < first_index b (map brand_of data))
          (map brand (report_in_first_seen_order data))"
    by (simp only: report_in_first_seen_order_brands first_seen_ordered)
  then have "sorted_wrt ?P (report_in_first_seen_order data)"
    by (simp add: sorted_wrt_map)
  then have "sorted_wrt (\<lambda>x y. average_rating x = average_rating y \<longrightarrow> ?P x y)
               (sorted_desc (report_in_first_seen_order data))"
    by (rule stable_sorted_desc)
  moreover have "report = sorted_desc (report_in_first_seen_order data)"
    using assms(2) by (simp add: aggregate_records [OF assms(1)])
  ultimately show ?thesis
    using assms(3-5) by (simp add: sorted_wrt_iff_nth_less)
qed

theorem equal_averages_keep_first_appearance_order_witness:
  "list_all record_row
     [[PStr ''brand'' \<mapsto> PStr ''sony'', PStr ''rating'' \<mapsto> PFloat (Fin 4)],
      [PStr ''brand'' \<mapsto> PStr ''apple'', PStr ''rating'' \<mapsto> PFloat (Fin 5)],
      [PStr ''brand'' \<mapsto> PStr ''acer'', PStr ''rating'' \<mapsto> PFloat (Fin 4)]]
   \<and> snd (calculate_average_rating
       [[PStr ''brand'' \<mapsto> PStr ''sony'', PStr ''rating'' \<mapsto> PFloat (Fin 4)],
        [PStr ''brand'' \<mapsto> PStr ''apple'', PStr ''rating'' \<mapsto> PFloat (Fin 5)],
        [PStr ''brand'' \<mapsto> PStr ''acer'', PStr ''rating'' \<mapsto> PFloat (Fin 4)]])
     = Inr [\<lparr>brand = PStr ''apple'', average_rating = Fin 5\<rparr>,
            \<lparr>brand = PStr ''sony'', average_rating = Fin 4\<rparr>,
            \<lparr>brand = PStr ''acer'', average_rating = Fin 4\<rparr>]
   \<and> first_index (PStr ''sony'') [PStr ''sony'', PStr ''apple'', PStr ''acer'']
       < first_index (PStr ''acer'') [PStr ''sony'', PStr ''apple'', PStr ''acer'']"
proof -
  let ?data = "[[PStr ''brand'' \<mapsto> PStr ''sony'', PStr ''rating'' \<mapsto> PFloat (Fin 4)],
                [PStr ''brand'' \<mapsto> PStr ''apple'', PStr ''rating'' \<mapsto> PFloat (Fin 5)],
                [PStr ''brand'' \<mapsto> PStr ''acer'', PStr ''rating'' \<mapsto> PFloat (Fin 4)]]"
  let ?report = "[\<lparr>brand = PStr ''apple'', average_rating = Fin 5\<rparr>,
                  \<lparr>brand = PStr ''sony'', average_rating = Fin 4\<rparr>,
                  \<lparr>brand = PStr ''acer'', average_rating = Fin 4\<rparr>]"
  have h: "list_all record_row ?data"
    by (simp add: record_eval)
  have r: "snd (calculate_average_rating ?data) = Inr ?report"
    by (simp add: aggregate_eval fl_eval)
  have b: "map brand_of ?data = [PStr ''sony'', PStr ''apple'', PStr ''acer'']"
    by (simp add: record_eval)
  have "first_index (brand (?report ! 1)) (map brand_of ?data)
          < first_index (brand (?report ! 2)) (map brand_of ?data)"
    by (rule equal_averages_keep_first_appearance_order [OF h r]) simp_all
  then show ?thesis
    using h r by (simp only: b) simp
qed

section \<open>The rounding law\<close>

text \<open>
  C6. For the single brand with the ratings 4.0, 4.0 and 5.0 the reported average is
  exactly the float 4.33, that is the float \<open>float('4.33')\<close>. The sum 13.0 divided by 3
  is the float nearest to 13/3, which is 4.333333333333333, and \<open>round(_, 2)\<close> of it
  is 4.33.
\<close>

theorem rounding_law_4_4_5:
  "calculate_average_rating
     [[PStr ''brand'' \<mapsto> PStr ''apple'', PStr ''rating'' \<mapsto> PFloat (Fin 4)],
      [PStr ''brand'' \<mapsto> PStr ''apple'', PStr ''rating'' \<mapsto> PFloat (Fin 4)],
      [PStr ''brand'' \<mapsto> PStr ''apple'', PStr ''rating'' \<mapsto> PFloat (Fin 5)]]
   = ([], Inr [\<lparr>brand = PStr ''apple'',
                average_rating = Fin (2437573298314281 / 562949953421312)\<rparr>])
   \<and> py_float ''4.33'' = Inr (Fin (2437573298314281 / 562949953421312))
   \<and> truediv_len (Fin 13) 3 = Inr (Fin (4878899596318037 / 1125899906842624))"
  by (simp add: aggregate_eval float_eval fl_eval)

text \<open>
  The rounding mode of \<open>round(_, 2)\<close>: a tie goes to the even digit (0.125 to 0.12,
  0.375 to 0.38), and it is the exact binary value that is rounded (the floats 4.335 and
  2.675 lie below the tie, and go to 4.33 and 2.67).
\<close>

lemma rounding_mode_examples:
  "py_round2 (Fin (1 / 8)) = fl (12 / 100)
   \<and> py_round2 (Fin (3 / 8)) = fl (38 / 100)
   \<and> py_round2 (fl (4335 / 1000)) = fl (433 / 100)
   \<and> py_round2 (fl (2675 / 1000)) = fl (267 / 100)"
  by (simp add: fl_eval)

section \<open>The ingestor\<close>

lemma process_row_accepted:
  assumes "process_row path row_num row = Accepted record"
  shows "\<exists>b s x. row (PStr ''brand'') = Some (PStr b) \<and> row (PStr ''rating'') = Some (PStr s)
           \<and> strip b \<noteq> [] \<and> py_float (strip s) = Inr x
           \<and> \<not> float_lt x (Fin 0) \<and> \<not> float_lt (Fin 5) x
           \<and> record = row(PStr ''brand'' \<mapsto> PStr (strip b), PStr ''rating'' \<mapsto> PFloat x)"
proof -
  from assms obtain b where b: "py_strip (py_get row (PStr ''brand'')) = Inr b"
    by (auto simp: process_row_def row_except_def split: if_splits sum.splits)
  from assms b obtain s where s: "py_strip (py_get row (PStr ''rating'')) = Inr s"
    by (auto simp: process_row_def row_except_def split: if_splits sum.splits)
  from b obtain b0 where b0: "row (PStr ''brand'') = Some (PStr b0)" "b = strip b0"
    by (cases "py_get row (PStr ''brand'')") (auto simp: py_get_def split: option.splits)
  from s obtain s0 where s0: "row (PStr ''rating'') = Some (PStr s0)" "s = strip s0"
    by (cases "py_get row (PStr ''rating'')") (auto simp: py_get_def split: option.splits)
  from assms b s show ?thesis
    unfolding b0 s0
    by (auto simp: process_row_def row_except_def b0 s0 split: if_splits sum.splits)
qed

lemma process_rows_accepted:
  "process_rows path row_num rows = (out, Inr records) \<Longrightarrow> record \<in> set records \<Longrightarrow>
   \<exists>row \<in> set rows. \<exists>n. process_row path n row = Accepted record"
proof (induction rows arbitrary: row_num out records)
  case Nil
  then show ?case by simp
next
  case (Cons row rows)
  show ?case
  proof (cases "process_row path row_num row")
    case (Skipped o1)
    with Cons.prems obtain o2 where "process_rows path (row_num + 1) rows = (o2, Inr records)"
      by (auto split: prod.splits)
    from Cons.IH [OF this Cons.prems(2)] show ?thesis by auto
  next
    case (Accepted r)
    with Cons.prems obtain o2 rs where rs: "process_rows path (row_num + 1) rows = (o2, Inr rs)"
      and recs: "records = r # rs"
      by (auto split: prod.splits sum.splits)
    show ?thesis
    proof (cases "record = r")
      case True
      with Accepted show ?thesis by auto
    next
      case False
      with Cons.prems(2) recs have "record \<in> set rs" by simp
      from Cons.IH [OF rs this] show ?thesis by auto
    qed
  next
    case (Raised e)
    with Cons.prems show ?thesis by simp
  qed
qed

lemma file_error_exits: "file_error path e = (out, r) \<Longrightarrow> r = Exit 1"
  by (auto simp: file_error_def split: if_splits)

lemma read_file_accepted:
  assumes "read_file path src = (out, Return records)" and "record \<in> set records"
  shows "\<exists>fieldnames rows failure. src = Reader fieldnames rows failure
           \<and> (\<exists>row \<in> set rows. \<exists>n. process_row path n row = Accepted record)"
proof (cases src)
  case (Raises e)
  with assms show ?thesis
    by (auto simp: read_file_def dest: file_error_exits)
next
  case (Reader fieldnames rows failure)
  show ?thesis
  proof (cases "process_rows path 2 rows")
    case (Pair o1 r1)
    show ?thesis
    proof (cases r1)
      case (Inl e)
      with assms Reader Pair show ?thesis
        by (auto simp: read_file_def split: if_splits prod.splits dest: file_error_exits)
    next
      case (Inr rs)
      have "records = rs"
        using assms Reader Pair Inr
        by (auto simp: read_file_def split: if_splits prod.splits option.splits
            dest: file_error_exits)
      with Pair Inr assms(2) process_rows_accepted [of path 2 rows o1 rs "record"] Reader
      show ?thesis by auto
    qed
  qed
qed

lemma read_files_accepted:
  "read_files opn files = (out, Return data) \<Longrightarrow> record \<in> set data \<Longrightarrow>
   \<exists>path \<in> set files. \<exists>fieldnames rows failure. opn path = Reader fieldnames rows failure
      \<and> (\<exists>row \<in> set rows. \<exists>n. process_row path n row = Accepted record)"
proof (induction files arbitrary: out data)
  case Nil
  then show ?case by simp
next
  case (Cons path files)
  from Cons.prems(1) obtain o1 rs o2 d where
    f: "read_file path (opn path) = (o1, Return rs)" and
    r: "read_files opn files = (o2, Return d)" and d: "data = rs @ d"
    by (auto split: prod.splits result.splits)
  from Cons.prems(2) d have "record \<in> set rs \<or> record \<in> set d" by auto
  then show ?case
  proof
    assume "record \<in> set rs"
    from read_file_accepted [OF f this] show ?thesis by auto
  next
    assume "record \<in> set d"
    from Cons.IH [OF r this] show ?thesis by auto
  qed
qed

lemma read_csv_files_returns:
  "read_csv_files opn files = (out, Return data) \<Longrightarrow>
   read_files opn files = (out, Return data) \<and> data \<noteq> []"
  by (auto simp: read_csv_files_def split: prod.splits result.splits if_splits)

text \<open>
  C9. Every record that the ingestor returns comes from a row of one of the files: the
  row's brand and rating are strings, the record has the stripped brand under \<open>brand\<close>
  and the float parsed from the stripped rating under \<open>rating\<close>, and under every other
  key the record has what the row has.
\<close>

theorem record_is_row_with_brand_and_rating_replaced:
  assumes "read_csv_files opn files = (out, Return data)" and "record \<in> set data"
  shows "\<exists>path \<in> set files. \<exists>fieldnames rows failure.
           opn path = Reader fieldnames rows failure
           \<and> (\<exists>row \<in> set rows. \<exists>b s x.
                 row (PStr ''brand'') = Some (PStr b)
                 \<and> row (PStr ''rating'') = Some (PStr s)
                 \<and> py_float (strip s) = Inr x
                 \<and> record = row(PStr ''brand'' \<mapsto> PStr (strip b), PStr ''rating'' \<mapsto> PFloat x)
                 \<and> (\<forall>k. k \<noteq> PStr ''brand'' \<and> k \<noteq> PStr ''rating'' \<longrightarrow> record k = row k))"
proof -
  from read_csv_files_returns [OF assms(1)] have "read_files opn files = (out, Return data)"
    by simp
  from read_files_accepted [OF this assms(2)] obtain path fieldnames rows failure row n
    where p: "path \<in> set files" "opn path = Reader fieldnames rows failure" "row \<in> set rows"
      and a: "process_row path n row = Accepted record"
    by blast
  from process_row_accepted [OF a] obtain b s x where
    "row (PStr ''brand'') = Some (PStr b)" "row (PStr ''rating'') = Some (PStr s)"
    "py_float (strip s) = Inr x"
    "record = row(PStr ''brand'' \<mapsto> PStr (strip b), PStr ''rating'' \<mapsto> PFloat x)"
    by blast
  moreover from this(4)
  have "\<forall>k. k \<noteq> PStr ''brand'' \<and> k \<noteq> PStr ''rating'' \<longrightarrow> record k = row k"
    by simp
  ultimately show ?thesis using p by blast
qed

theorem record_is_row_with_brand_and_rating_replaced_witness:
  "read_csv_files
     (\<lambda>path. Reader (Some [''name'', ''brand'', ''rating''])
        [[PStr ''name'' \<mapsto> PStr ''iphone'', PStr ''brand'' \<mapsto> PStr '' apple '',
          PStr ''rating'' \<mapsto> PStr ''4.5 '']] None)
     [''phones.csv'']
   = ([], Return [[PStr ''name'' \<mapsto> PStr ''iphone'', PStr ''brand'' \<mapsto> PStr ''apple'',
                   PStr ''rating'' \<mapsto> PFloat (Fin (9 / 2))]])
   \<and> (\<exists>row b s x.
         row (PStr ''brand'') = Some (PStr b) \<and> row (PStr ''rating'') = Some (PStr s)
         \<and> py_float (strip s) = Inr x
         \<and> [PStr ''name'' \<mapsto> PStr ''iphone'', PStr ''brand'' \<mapsto> PStr ''apple'',
             PStr ''rating'' \<mapsto> PFloat (Fin (9 / 2))]
           = row(PStr ''brand'' \<mapsto> PStr (strip b), PStr ''rating'' \<mapsto> PFloat x))"
proof -
  let ?opn = "\<lambda>path :: string. Reader (Some [''name'', ''brand'', ''rating''])
        [[PStr ''name'' \<mapsto> PStr ''iphone'', PStr ''brand'' \<mapsto> PStr '' apple '',
          PStr ''rating'' \<mapsto> PStr ''4.5 '']] None"
  let ?rec = "[PStr ''name'' \<mapsto> PStr ''iphone'', PStr ''brand'' \<mapsto> PStr ''apple'',
               PStr ''rating'' \<mapsto> PFloat (Fin (9 / 2))]"
  have r: "read_csv_files ?opn [''phones.csv''] = ([], Return [?rec])"
    by (simp add: ingest_eval float_eval fl_eval)
  have m: "?rec \<in> set [?rec]"
    by simp
  from record_is_row_with_brand_and_rating_replaced [OF r m] r show ?thesis
    by blast
qed

section \<open>What is printed\<close>

lemma process_row_prints:
  assumes "\<And>m. \<not> is_table m \<Longrightarrow> P (Stdout, m)"
    and "process_row path n row = Skipped out"
  shows "list_all P out"
  using assms(2)
  by (auto simp: process_row_def row_except_def print_def is_table_def intro!: assms(1)
      split: if_splits sum.splits)

lemma process_rows_prints:
  assumes "\<And>m. \<not> is_table m \<Longrightarrow> P (Stdout, m)"
  shows "list_all P (fst (process_rows path n rows))"
proof (induction rows arbitrary: n)
  case Nil
  then show ?case by simp
next
  case (Cons row rows)
  show ?case
    using Cons.IH [of "n + 1"] process_row_prints [of P path n row, OF assms]
    by (cases "process_row path n row")
       (auto split: prod.splits sum.splits)
qed

lemma file_error_prints:
  assumes "\<And>m. \<not> is_table m \<Longrightarrow> P (Stdout, m)"
  shows "list_all P (fst (file_error path e))"
  by (auto simp: file_error_def print_def is_table_def intro!: assms)

lemma read_file_prints:
  assumes "\<And>m. \<not> is_table m \<Longrightarrow> P (Stdout, m)"
  shows "list_all P (fst (read_file path src))"
proof (cases src)
  case (Raises e)
  then show ?thesis using file_error_prints [of P path e, OF assms] by (simp add: read_file_def)
next
  case (Reader fieldnames rows failure)
  have w: "P (Stdout, WarnMissingColumns path)" "P (Stdout, WarnNoValidData path)"
    by (auto intro!: assms simp: is_table_def)
  show ?thesis
    using process_rows_prints [of P path 2 rows, OF assms] file_error_prints [of P path, OF assms] w
    by (auto simp: read_file_def Reader print_def split: prod.splits sum.splits option.splits)
       (metis fst_conv)+
qed

lemma read_files_prints:
  assumes "\<And>m. \<not> is_table m \<Longrightarrow> P (Stdout, m)"
  shows "list_all P (fst (read_files opn files))"
proof (induction files)
  case Nil
  then show ?case by simp
next
  case (Cons path files)
  then show ?case
    using read_file_prints [of P path "opn path", OF assms]
    by (auto split: prod.splits result.splits)
qed

lemma read_csv_files_prints:
  assumes "\<And>m. \<not> is_table m \<Longrightarrow> P (Stdout, m)"
  shows "list_all P (fst (read_csv_files opn files))"
  using read_files_prints [of P opn files, OF assms] assms [of ErrNoDataRead]
  by (auto simp: read_csv_files_def print_def is_table_def split: prod.splits result.splits)

lemma validate_files_returns:
  "validate_files fs files = (out, Return valid_files) \<Longrightarrow> out = [] \<and> valid_files = files"
  by (induction files arbitrary: out valid_files)
     (auto split: if_splits prod.splits result.splits simp: print_def)

lemma validate_files_prints:
  assumes "\<And>m. \<not> is_table m \<Longrightarrow> P (Stdout, m)"
  shows "list_all P (fst (validate_files fs files))"
  by (induction files)
     (auto split: prod.splits result.splits simp: print_def is_table_def intro!: assms)

section \<open>Exit statuses\<close>

text \<open>
  C7. If the files pass validation and no row of any of them is accepted, then
  \<open>read_csv_files\<close> prints its error and exits with status 1, so does the process, and
  no table is printed: the report handler is never called.
\<close>

theorem no_records_exits_with_status_1:
  assumes "validate_files fs files = (out1, Return valid_files)"
    and "read_files (open_csv fs) valid_files = (out2, Return [])"
  shows "read_csv_files (open_csv fs) valid_files = (out2 @ print ErrNoDataRead, Exit 1)
       \<and> main_with handler fs files =
           (if valid_files = [] then print ErrNoValidFiles else out2 @ print ErrNoDataRead, 1)
       \<and> no_table (fst (main_with handler fs files))"
proof -
  from validate_files_returns [OF assms(1)] have o: "out1 = []" by simp
  have r: "read_csv_files (open_csv fs) valid_files = (out2 @ print ErrNoDataRead, Exit 1)"
    using assms(2) by (simp add: read_csv_files_def)
  have m: "main_with handler fs files =
           (if valid_files = [] then print ErrNoValidFiles else out2 @ print ErrNoDataRead, 1)"
    using assms(1) r o by (simp add: main_with_def)
  have "list_all (\<lambda>ev. \<not> is_table (snd ev)) (fst (read_files (open_csv fs) valid_files))"
    by (rule read_files_prints) simp
  then have "no_table out2"
    using assms(2) by (simp add: no_table_def)
  then have "no_table (fst (main_with handler fs files))"
    unfolding m by (simp add: no_table_def print_def is_table_def)
  with r m show ?thesis by simp
qed

theorem no_records_exits_with_status_1_witness:
  "validate_files
     (all_readable (\<lambda>path. Reader (Some [''name'', ''brand'', ''price'', ''rating'']) [] None))
     [''empty.csv''] = ([], Return [''empty.csv''])
   \<and> read_files (\<lambda>path. Reader (Some [''name'', ''brand'', ''price'', ''rating'']) [] None)
       [''empty.csv''] = ([(Stdout, WarnNoValidData ''empty.csv'')], Return [])
   \<and> main_with calculate_average_rating
       (all_readable (\<lambda>path. Reader (Some [''name'', ''brand'', ''price'', ''rating'']) [] None))
       [''empty.csv'']
     = ([(Stdout, WarnNoValidData ''empty.csv''), (Stdout, ErrNoDataRead)], 1)"
proof -
  let ?opn = "\<lambda>path :: string. Reader (Some [''name'', ''brand'', ''price'', ''rating'']) [] None"
  have v: "validate_files (all_readable ?opn) [''empty.csv''] = ([], Return [''empty.csv''])"
    by (simp add: fs_eval main_eval)
  have r: "read_files (open_csv (all_readable ?opn)) [''empty.csv'']
             = ([(Stdout, WarnNoValidData ''empty.csv'')], Return [])"
    by (simp add: fs_eval ingest_eval)
  from no_records_exits_with_status_1 [OF v r, of calculate_average_rating]
  have "main_with calculate_average_rating (all_readable ?opn) [''empty.csv'']
          = ([(Stdout, WarnNoValidData ''empty.csv''), (Stdout, ErrNoDataRead)], 1)"
    by (simp add: print_def)
  with v r show ?thesis by (simp add: all_readable_def)
qed

text \<open>
  C8. If ingestion returns records (then there is at least one) and the report handler
  returns an empty report, the process prints the empty-report message, which no other
  \<open>print\<close> of the program produces, and exits with status 0.
\<close>

theorem empty_report_exits_with_status_0:
  assumes "validate_files fs files = (out1, Return valid_files)"
    and "read_csv_files (open_csv fs) valid_files = (out2, Return data)"
    and "handler data = (out3, Inr [])"
  shows "data \<noteq> []
       \<and> main_with handler fs files = (out2 @ out3 @ print EmptyReport, 0)"
proof -
  from validate_files_returns [OF assms(1)] have o: "out1 = []" by simp
  from read_csv_files_returns [OF assms(2)] have d: "data \<noteq> []" by simp
  have "valid_files \<noteq> []"
    using assms(2) by (auto simp: read_csv_files_def)
  with assms o d show ?thesis by (simp add: main_with_def)
qed

theorem empty_report_exits_with_status_0_witness:
  "validate_files
     (all_readable (\<lambda>path. Reader (Some [''brand'', ''rating''])
        [[PStr ''brand'' \<mapsto> PStr ''apple'', PStr ''rating'' \<mapsto> PStr ''4.5'']] None))
     [''test.csv''] = ([], Return [''test.csv''])
   \<and> read_csv_files
       (\<lambda>path. Reader (Some [''brand'', ''rating''])
          [[PStr ''brand'' \<mapsto> PStr ''apple'', PStr ''rating'' \<mapsto> PStr ''4.5'']] None)
       [''test.csv'']
     = ([], Return [[PStr ''brand'' \<mapsto> PStr ''apple'', PStr ''rating'' \<mapsto> PFloat (Fin (9 / 2))]])
   \<and> main_with (\<lambda>data. ([], Inr []))
       (all_readable (\<lambda>path. Reader (Some [''brand'', ''rating''])
          [[PStr ''brand'' \<mapsto> PStr ''apple'', PStr ''rating'' \<mapsto> PStr ''4.5'']] None))
       [''test.csv'']
     = ([(Stdout, EmptyReport)], 0)"
proof -
  let ?opn = "\<lambda>path :: string. Reader (Some [''brand'', ''rating''])
        [[PStr ''brand'' \<mapsto> PStr ''apple'', PStr ''rating'' \<mapsto> PStr ''4.5'']] None"
  let ?data = "[[PStr ''brand'' \<mapsto> PStr ''apple'', PStr ''rating'' \<mapsto> PFloat (Fin (9 / 2))]]"
  let ?handler = "\<lambda>data :: pydict list. ([] :: printed, Inr [] :: py_exc + report_row list)"
  have v: "validate_files (all_readable ?opn) [''test.csv''] = ([], Return [''test.csv''])"
    by (simp add: fs_eval main_eval)
  have r: "read_csv_files (open_csv (all_readable ?opn)) [''test.csv''] = ([], Return ?data)"
    by (simp add: fs_eval ingest_eval float_eval fl_eval)
  have h: "?handler ?data = ([], Inr [])"
    by simp
  from empty_report_exits_with_status_0 [OF v r h]
  have "main_with ?handler (all_readable ?opn) [''test.csv''] = ([(Stdout, EmptyReport)], 0)"
    by (simp add: print_def)
  with v r show ?thesis by (simp add: all_readable_def)
qed

section \<open>Where the output goes\<close>

lemma calculate_average_rating_on_stdout:
  "list_all (\<lambda>ev. fst ev = Stdout) (fst (calculate_average_rating data))"
  by (auto simp: calculate_average_rating_def print_def Let_def split: prod.splits sum.splits)

text \<open>
  C4 does not hold: a warning of the ingestor is written to standard output, before the
  table.
\<close>

theorem diagnostics_on_standard_output_counterexample:
  "main
     (all_readable (\<lambda>path. Reader (Some [''brand'', ''rating''])
        [[PStr ''brand'' \<mapsto> PStr ''apple'', PStr ''rating'' \<mapsto> PStr ''6.0''],
         [PStr ''brand'' \<mapsto> PStr ''samsung'', PStr ''rating'' \<mapsto> PStr ''5.0'']] None))
     [''phones.csv'']
   = ([(Stdout, WarnBadRating (Fin 6) 2 ''phones.csv''),
       (Stdout, Table [\<lparr>brand = PStr ''samsung'', average_rating = Fin 5\<rparr>])], 0)"
  by (simp add: fs_eval main_eval ingest_eval aggregate_eval float_eval fl_eval)

text \<open>
  C4, as the program has it. Everything the program prints, the warnings and error messages
  of the validation, the ingestor, the aggregator and \<open>main\<close> as well as the rendered
  table, is written to standard output; it writes nothing to the error stream.
\<close>

theorem all_output_on_standard_output:
  "on_stdout (fst (main fs files))"
proof -
  let ?P = "\<lambda>ev :: stream \<times> message. fst ev = Stdout"
  have v: "list_all ?P (fst (validate_files fs files))"
    by (rule validate_files_prints) simp
  have r: "list_all ?P (fst (read_csv_files (open_csv fs) vs))" for vs
    by (rule read_csv_files_prints) simp
  have a: "list_all ?P (fst (calculate_average_rating data))" for data
    by (rule calculate_average_rating_on_stdout)
  show ?thesis
    unfolding on_stdout_def main_def main_with_def
    using v
    by (auto simp: print_def split: prod.splits result.splits sum.splits)
       (use r a in \<open>(metis fst_conv)+\<close>)
qed

section \<open>The range invariant\<close>

text \<open>
  What the checks of the ingestor do establish for every record: the brand is a non-empty
  string without surrounding whitespace, and the rating is a float that is neither below 0
  nor above 5, so it lies within 0 and 5 unless it is NaN.
\<close>

lemma unordered_or_in_range:
  "\<not> float_lt x (Fin 0) \<Longrightarrow> \<not> float_lt (Fin 5) x \<Longrightarrow>
   x = NaN \<or> (float_le (Fin 0) x \<and> float_le x (Fin 5))"
  by (cases x) simp_all

lemma ingested_record_checked:
  assumes "read_csv_files opn files = (out, Return data)" and "rcd \<in> set data"
  shows "\<exists>b x. rcd (PStr ''brand'') = Some (PStr b) \<and> b \<noteq> [] \<and> rcd (PStr ''rating'') = Some (PFloat x)
           \<and> (x = NaN \<or> (float_le (Fin 0) x \<and> float_le x (Fin 5)))"
proof -
  from read_csv_files_returns [OF assms(1)] have "read_files opn files = (out, Return data)"
    by simp
  from read_files_accepted [OF this assms(2)] obtain path row n
    where "process_row path n row = Accepted rcd"
    by blast
  from process_row_accepted [OF this] obtain b s x where
    "strip b \<noteq> []" "\<not> float_lt x (Fin 0)" "\<not> float_lt (Fin 5) x"
    "rcd = row(PStr ''brand'' \<mapsto> PStr (strip b), PStr ''rating'' \<mapsto> PFloat x)"
    by blast
  with unordered_or_in_range [of x] show ?thesis by auto
qed

text \<open>
  C2. The invariant fails for a rating that parses as NaN: the row is accepted and
  returned, and its rating is not within 0 and 5.
\<close>

theorem nan_rating_violates_range_invariant:
  "read_csv_files
     (\<lambda>path. Reader (Some [''brand'', ''rating''])
        [[PStr ''brand'' \<mapsto> PStr ''acme'', PStr ''rating'' \<mapsto> PStr '' NaN''],
         [PStr ''brand'' \<mapsto> PStr ''bolt'', PStr ''rating'' \<mapsto> PStr ''4.5'']] None)
     [''ratings.csv'']
   = ([], Return [[PStr ''brand'' \<mapsto> PStr ''acme'', PStr ''rating'' \<mapsto> PFloat NaN],
                  [PStr ''brand'' \<mapsto> PStr ''bolt'', PStr ''rating'' \<mapsto> PFloat (Fin (9 / 2))]])
   \<and> \<not> (float_le (Fin 0) NaN \<and> float_le NaN (Fin 5))"
  by (simp add: ingest_eval float_eval fl_eval)

section \<open>Records the aggregator cannot use\<close>

text \<open>
  C3. On the input of the repository's test \<open>test_calculate_rating_with_invalid_data\<close>
  the aggregator skips the two rows that lack a key, but it groups the row whose brand
  is the empty string and reports it. A rating that is a string is grouped as well, and
  summing it raises \<open>TypeError\<close>, which leaves the function.
\<close>

theorem aggregator_keeps_unusable_records:
  "calculate_average_rating
     [[PStr ''brand'' \<mapsto> PStr ''apple'', PStr ''rating'' \<mapsto> PFloat (fl (47 / 10))],
      [PStr ''brand'' \<mapsto> PStr ''apple''],
      [PStr ''brand'' \<mapsto> PStr '''', PStr ''rating'' \<mapsto> PFloat (fl (45 / 10))],
      [PStr ''not_brand'' \<mapsto> PStr ''sony'', PStr ''rating'' \<mapsto> PFloat (fl (40 / 10))]]
   = ([(Stdout, WarnSkippedRecords 2)],
      Inr [\<lparr>brand = PStr ''apple'', average_rating = fl (47 / 10)\<rparr>,
           \<lparr>brand = PStr '''', average_rating = fl (45 / 10)\<rparr>])
   \<and> calculate_average_rating
       [[PStr ''brand'' \<mapsto> PStr ''apple'', PStr ''rating'' \<mapsto> PStr ''4.7'']]
     = ([], Inl TypeError)"
  by (simp add: aggregate_eval fl_eval)

section \<open>A rating that is not a number\<close>

text \<open>
  C10. The string \<open>nan\<close> parses as the float NaN; both comparisons of the range check
  are false for it, so the row is accepted as a record whose rating is NaN, the ingestor
  returns it, and the aggregator reports NaN as the average of its brand.
\<close>

theorem nan_rating_reaches_report:
  "py_float ''nan'' = Inr NaN
   \<and> \<not> (float_lt NaN (Fin 0) \<or> float_lt (Fin 5) NaN)
   \<and> read_csv_files
        (\<lambda>path. Reader (Some [''brand'', ''rating''])
                   [[PStr ''brand'' \<mapsto> PStr ''acme'', PStr ''rating'' \<mapsto> PStr ''nan'']] None)
        [''ratings.csv'']
      = ([], Return [[PStr ''brand'' \<mapsto> PStr ''acme'', PStr ''rating'' \<mapsto> PFloat NaN]])
   \<and> calculate_average_rating
        [[PStr ''brand'' \<mapsto> PStr ''acme'', PStr ''rating'' \<mapsto> PFloat NaN]]
      = ([], Inr [\<lparr>brand = PStr ''acme'', average_rating = NaN\<rparr>])"
  by (simp add: ingest_eval aggregate_eval float_eval fl_eval)

end
